theory Spec2Isabelle
  imports Main "HOL-Library.AList" "HOL-Library.Sublist"
begin

section \<open>Python strings\<close>

text \<open>
  A Python \<open>str\<close> is modelled as a \<open>string\<close> of ASCII characters. The four
  string operations the store uses are \<open>str.lower\<close>, \<open>str.split\<close> without
  arguments, \<open>str.strip\<close> without arguments and the substring test \<open>a in b\<close>.
  Python's case mapping and whitespace classes for characters beyond ASCII are outside
  the model.
\<close>

definition isspace :: "char \<Rightarrow> bool" where
  "isspace c \<longleftrightarrow>
     c \<in> set [CHR 0x09, CHR 0x0A, CHR 0x0B, CHR 0x0C, CHR 0x0D,
              CHR 0x1C, CHR 0x1D, CHR 0x1E, CHR 0x1F, CHR 0x20]"

definition lower_char :: "char \<Rightarrow> char" where
  "lower_char c =
     (case map_of (zip ''ABCDEFGHIJKLMNOPQRSTUVWXYZ'' ''abcdefghijklmnopqrstuvwxyz'') c of
        None \<Rightarrow> c
      | Some l \<Rightarrow> l)"

definition str_lower :: "string \<Rightarrow> string" where
  "str_lower s = map lower_char s"

text \<open>
  \<open>s.split()\<close>: the maximal runs of non-whitespace characters of \<open>s\<close>, in order.
  \<open>split_from cur s\<close> scans \<open>s\<close> with the token read so far in \<open>cur\<close>.
\<close>

fun split_from :: "string \<Rightarrow> string \<Rightarrow> string list" where
  "split_from cur [] = (if cur = [] then [] else [cur])"
| "split_from cur (c # cs) =
     (if isspace c then (if cur = [] then split_from [] cs else cur # split_from [] cs)
      else split_from (cur @ [c]) cs)"

definition str_split :: "string \<Rightarrow> string list" where
  "str_split s = split_from [] s"

definition str_strip :: "string \<Rightarrow> string" where
  "str_strip s = rev (dropWhile isspace (rev (dropWhile isspace s)))"

text \<open>A string that is empty or holds whitespace only.\<close>

definition blank :: "string \<Rightarrow> bool" where
  "blank s \<longleftrightarrow> (\<forall>c \<in> set s. isspace c)"

text \<open>\<open>str_contains sub s\<close> is Python's \<open>sub in s\<close> on strings.\<close>

primrec str_contains :: "string \<Rightarrow> string \<Rightarrow> bool" where
  "str_contains sub [] = (sub = [])"
| "str_contains sub (c # cs) = (prefix sub (c # cs) \<or> str_contains sub cs)"

section \<open>Python dictionaries and exceptions\<close>

text \<open>
  A \<open>dict\<close> is an association list with distinct keys in insertion order: assignment
  to an existing key keeps its position, assignment to a new key appends, as
  \<^const>\<open>AList.update\<close> does. \<open>d[k]\<close> and \<open>del d[k]\<close> raise \<open>KeyError\<close> on a missing
  key; \<open>d.get(k)\<close> and \<open>k in d\<close> never raise.
\<close>

datatype error = KeyError

type_synonym ('k, 'v) dict = "('k \<times> 'v) list"

definition and_then :: "error + 'a \<Rightarrow> ('a \<Rightarrow> error + 'b) \<Rightarrow> error + 'b" where
  "and_then m f = (case m of Inl e \<Rightarrow> Inl e | Inr x \<Rightarrow> f x)"

definition dict_in :: "'k \<Rightarrow> ('k, 'v) dict \<Rightarrow> bool" where
  "dict_in k d \<longleftrightarrow> k \<in> fst ` set d"

definition dict_get :: "('k, 'v) dict \<Rightarrow> 'k \<Rightarrow> 'v option" where
  "dict_get d k = map_of d k"

definition dict_getitem :: "('k, 'v) dict \<Rightarrow> 'k \<Rightarrow> error + 'v" where
  "dict_getitem d k = (case map_of d k of None \<Rightarrow> Inl KeyError | Some v \<Rightarrow> Inr v)"

definition dict_setitem :: "('k, 'v) dict \<Rightarrow> 'k \<Rightarrow> 'v \<Rightarrow> ('k, 'v) dict" where
  "dict_setitem d k v = AList.update k v d"

definition dict_delitem :: "('k, 'v) dict \<Rightarrow> 'k \<Rightarrow> error + ('k, 'v) dict" where
  "dict_delitem d k = (if dict_in k d then Inr (AList.delete k d) else Inl KeyError)"

section \<open>models/contact.py\<close>

text \<open>
  The dataclass \<open>Contact\<close>. Its field \<open>id\<close> is \<open>contact_id\<close> here. After
  \<open>__post_init__\<close> the id is always a string: the one given, or \<open>str(uuid.uuid4())\<close>,
  whose value is the argument \<open>uuid\<close> of \<open>Contact_init\<close>.
\<close>

record Contact =
  name :: string
  phone :: string
  email :: string
  contact_id :: string

definition Contact_init :: "string \<Rightarrow> string \<Rightarrow> string \<Rightarrow> string option \<Rightarrow> string \<Rightarrow> Contact" where
  "Contact_init n p e i uuid =
     \<lparr>name = n, phone = p, email = e,
      contact_id = (case i of None \<Rightarrow> uuid | Some s \<Rightarrow> s)\<rparr>"

text \<open>
  \<open>update_fields(**kwargs)\<close>: the keyword arguments are a list of (keyword, value)
  pairs, visited in order. \<open>hasattr\<close> is modelled for the four dataclass fields;
  keywords that name a method or an inherited attribute of the object are outside the
  model (\<open>ContactService._validate_update_fields\<close> rejects every keyword other than
  name, phone and email).
\<close>

definition hasattr :: "string \<Rightarrow> bool" where
  "hasattr field \<longleftrightarrow> field \<in> set [''name'', ''phone'', ''email'', ''id'']"

definition setattr :: "Contact \<Rightarrow> string \<Rightarrow> string \<Rightarrow> Contact" where
  "setattr c field v =
     (if field = ''name'' then c\<lparr>name := v\<rparr>
      else if field = ''phone'' then c\<lparr>phone := v\<rparr>
      else if field = ''email'' then c\<lparr>email := v\<rparr>
      else if field = ''id'' then c\<lparr>contact_id := v\<rparr>
      else c)"

fun update_fields :: "Contact \<Rightarrow> (string \<times> string) list \<Rightarrow> Contact" where
  "update_fields c [] = c"
| "update_fields c ((field, v) # kwargs) =
     update_fields (if hasattr field \<and> field \<noteq> ''id'' then setattr c field v else c) kwargs"

section \<open>storage/memory_store.py\<close>

text \<open>
  Contacts are mutable objects that the store holds by reference, so the model has a
  heap of Contact objects. \<open>MemoryStore\<close> holds the four dictionaries; the primary one
  maps an id to the reference of its Contact. The lock is not modelled: every
  operation runs alone.
\<close>

type_synonym ref = nat

record MemoryStore =
  contacts :: "(string, ref) dict"
  name_index :: "(string, string set) dict"
  phone_index :: "(string, string) dict"
  email_index :: "(string, string) dict"

record world =
  heap :: "ref \<Rightarrow> Contact"
  next_ref :: ref
  store :: MemoryStore

definition MemoryStore_init :: MemoryStore where
  "MemoryStore_init = \<lparr>contacts = [], name_index = [], phone_index = [], email_index = []\<rparr>"

definition empty_world :: world where
  "empty_world =
     \<lparr>heap = (\<lambda>_. \<lparr>name = [], phone = [], email = [], contact_id = []\<rparr>),
      next_ref = 0, store = MemoryStore_init\<rparr>"

text \<open>One round of the loop of \<open>_update_indexes\<close> over the words of the name.\<close>

definition index_word ::
  "(string, string set) dict \<Rightarrow> string \<Rightarrow> string \<Rightarrow> error + (string, string set) dict" where
  "index_word ni word cid =
     (let ni1 = (if \<not> dict_in word ni then dict_setitem ni word {} else ni) in
      and_then (dict_getitem ni1 word) (\<lambda>s. Inr (dict_setitem ni1 word (insert cid s))))"

fun index_words ::
  "(string, string set) dict \<Rightarrow> string list \<Rightarrow> string \<Rightarrow> error + (string, string set) dict" where
  "index_words ni [] cid = Inr ni"
| "index_words ni (word # name_words) cid =
     and_then (index_word ni word cid) (\<lambda>ni'. index_words ni' name_words cid)"

definition update_indexes :: "MemoryStore \<Rightarrow> Contact \<Rightarrow> error + MemoryStore" where
  "update_indexes st c =
     and_then (index_words (name_index st) (str_split (str_lower (name c))) (contact_id c))
       (\<lambda>ni. Inr (st\<lparr>name_index := ni,
                      phone_index := dict_setitem (phone_index st) (phone c) (contact_id c),
                      email_index :=
                        dict_setitem (email_index st) (str_lower (email c)) (contact_id c)\<rparr>))"

text \<open>One round of the loop of \<open>_remove_from_indexes\<close> over the words of the name.\<close>

definition unindex_word ::
  "(string, string set) dict \<Rightarrow> string \<Rightarrow> string \<Rightarrow> error + (string, string set) dict" where
  "unindex_word ni word cid =
     (if dict_in word ni then
        and_then (dict_getitem ni word) (\<lambda>s.
          let ni1 = dict_setitem ni word (s - {cid}) in
          and_then (dict_getitem ni1 word) (\<lambda>s1.
            if s1 = {} then dict_delitem ni1 word else Inr ni1))
      else Inr ni)"

fun unindex_words ::
  "(string, string set) dict \<Rightarrow> string list \<Rightarrow> string \<Rightarrow> error + (string, string set) dict" where
  "unindex_words ni [] cid = Inr ni"
| "unindex_words ni (word # name_words) cid =
     and_then (unindex_word ni word cid) (\<lambda>ni'. unindex_words ni' name_words cid)"

definition remove_from_indexes :: "MemoryStore \<Rightarrow> Contact \<Rightarrow> error + MemoryStore" where
  "remove_from_indexes st c =
     and_then (unindex_words (name_index st) (str_split (str_lower (name c))) (contact_id c))
       (\<lambda>ni.
     and_then (if dict_in (phone c) (phone_index st)
               then dict_delitem (phone_index st) (phone c) else Inr (phone_index st))
       (\<lambda>pi.
     and_then (if dict_in (str_lower (email c)) (email_index st)
               then dict_delitem (email_index st) (str_lower (email c))
               else Inr (email_index st))
       (\<lambda>ei. Inr (st\<lparr>name_index := ni, phone_index := pi, email_index := ei\<rparr>))))"

text \<open>
  The public methods. A method that returns a Contact returns the reference of the
  object; \<open>None\<close> is the \<open>None\<close> of \<open>Optional[Contact]\<close>. A Contact object is always
  truthy, so \<open>if not contact\<close> tests for \<open>None\<close>.
\<close>

definition create_contact :: "world \<Rightarrow> ref \<Rightarrow> error + (ref \<times> world)" where
  "create_contact w contact =
     (let c = heap w contact;
          st1 = (store w)\<lparr>contacts := dict_setitem (contacts (store w)) (contact_id c) contact\<rparr>
      in and_then (update_indexes st1 c) (\<lambda>st2. Inr (contact, w\<lparr>store := st2\<rparr>)))"

definition get_contact :: "world \<Rightarrow> string \<Rightarrow> ref option" where
  "get_contact w cid = dict_get (contacts (store w)) cid"

definition update_contact ::
  "world \<Rightarrow> string \<Rightarrow> (string \<times> string) list \<Rightarrow> error + (ref option \<times> world)" where
  "update_contact w cid updates =
     (case dict_get (contacts (store w)) cid of
        None \<Rightarrow> Inr (None, w)
      | Some contact \<Rightarrow>
          and_then (remove_from_indexes (store w) (heap w contact)) (\<lambda>st1.
            let c' = update_fields (heap w contact) updates in
            and_then (update_indexes st1 c') (\<lambda>st2.
              Inr (Some contact, w\<lparr>heap := (heap w)(contact := c'), store := st2\<rparr>))))"

definition delete_contact :: "world \<Rightarrow> string \<Rightarrow> error + (bool \<times> world)" where
  "delete_contact w cid =
     (case dict_get (contacts (store w)) cid of
        None \<Rightarrow> Inr (False, w)
      | Some contact \<Rightarrow>
          and_then (remove_from_indexes (store w) (heap w contact)) (\<lambda>st1.
            and_then (dict_delitem (contacts st1) cid) (\<lambda>cs.
              Inr (True, w\<lparr>store := st1\<lparr>contacts := cs\<rparr>\<rparr>))))"

text \<open>
  \<open>search_contacts\<close>: the three loops fill the set \<open>matching_ids\<close>; the list
  comprehension then visits that set. The order in which Python visits a set of strings
  is not fixed by the program, so it is the argument \<open>visit\<close>, which lists a set;
  \<open>visits visit S\<close> says that it lists each element of \<open>S\<close> once.
\<close>

definition matching_ids :: "MemoryStore \<Rightarrow> string \<Rightarrow> string set" where
  "matching_ids st query_lower =
     (let m1 = fold (\<lambda>(word, contact_ids) m.
                       if str_contains query_lower (str_lower word) then m \<union> contact_ids else m)
                 (name_index st) {};
          m2 = fold (\<lambda>(phone_key, cid) m.
                       if str_contains query_lower phone_key then insert cid m else m)
                 (phone_index st) m1;
          m3 = fold (\<lambda>(email_key, cid) m.
                       if str_contains query_lower (str_lower email_key) then insert cid m else m)
                 (email_index st) m2
      in m3)"

definition visits :: "(string set \<Rightarrow> string list) \<Rightarrow> string set \<Rightarrow> bool" where
  "visits visit S \<longleftrightarrow> distinct (visit S) \<and> set (visit S) = S"

fun collect_contacts :: "(string, ref) dict \<Rightarrow> string list \<Rightarrow> error + ref list" where
  "collect_contacts cs [] = Inr []"
| "collect_contacts cs (cid # ids) =
     (if dict_in cid cs then
        and_then (dict_getitem cs cid) (\<lambda>r.
          and_then (collect_contacts cs ids) (\<lambda>rs. Inr (r # rs)))
      else collect_contacts cs ids)"

definition search_contacts ::
  "world \<Rightarrow> (string set \<Rightarrow> string list) \<Rightarrow> string \<Rightarrow> error + ref list" where
  "search_contacts w visit query =
     (let query_lower = str_strip (str_lower query) in
      if query_lower = [] then Inr []
      else collect_contacts (contacts (store w)) (visit (matching_ids (store w) query_lower)))"

definition get_all_contacts :: "world \<Rightarrow> ref list" where
  "get_all_contacts w = map snd (contacts (store w))"

section \<open>Creating a contact from its three fields\<close>

text \<open>
  \<open>ContactService.create_contacts\<close> builds each Contact with
  \<open>Contact(name=..., phone=..., email=...)\<close>, a new object with a generated id, and
  hands it to \<open>create_contact\<close>. \<open>new_Contact\<close> allocates the object.
\<close>

definition new_Contact :: "world \<Rightarrow> Contact \<Rightarrow> ref \<times> world" where
  "new_Contact w c =
     (next_ref w, w\<lparr>heap := (heap w)(next_ref w := c), next_ref := Suc (next_ref w)\<rparr>)"

definition create :: "world \<Rightarrow> string \<Rightarrow> string \<Rightarrow> string \<Rightarrow> string \<Rightarrow> error + (ref \<times> world)" where
  "create w n p e uuid =
     (let (contact, w1) = new_Contact w (Contact_init n p e None uuid)
      in create_contact w1 contact)"

text \<open>
  A caller that holds a reference to a Contact can assign to its attributes:
  \<open>contact.name = v\<close> outside the store.
\<close>

definition caller_setattr :: "world \<Rightarrow> ref \<Rightarrow> string \<Rightarrow> string \<Rightarrow> world" where
  "caller_setattr w r field v = w\<lparr>heap := (heap w)(r := setattr (heap w r) field v)\<rparr>"

section \<open>Sequences of operations\<close>

text \<open>
  \<open>Create n p e uuid\<close> is a create of the contact (n, p, e) for which \<open>uuid4\<close>
  produced \<open>uuid\<close>. \<open>fresh_ids w ops\<close> holds when every uuid produced, at the
  moment it is produced, is not the id of a stored contact.
\<close>

datatype op =
    Create string string string string
  | Update string "(string \<times> string) list"
  | Delete string

fun step :: "world \<Rightarrow> op \<Rightarrow> error + world" where
  "step w (Create n p e uuid) = and_then (create w n p e uuid) (\<lambda>(r, w'). Inr w')"
| "step w (Update cid updates) = and_then (update_contact w cid updates) (\<lambda>(r, w'). Inr w')"
| "step w (Delete cid) = and_then (delete_contact w cid) (\<lambda>(b, w'). Inr w')"

fun run :: "world \<Rightarrow> op list \<Rightarrow> error + world" where
  "run w [] = Inr w"
| "run w (x # ops) = and_then (step w x) (\<lambda>w'. run w' ops)"

fun fresh_id :: "world \<Rightarrow> op \<Rightarrow> bool" where
  "fresh_id w (Create n p e uuid) = (\<not> dict_in uuid (contacts (store w)))"
| "fresh_id w (Update cid updates) = True"
| "fresh_id w (Delete cid) = True"

fun fresh_ids :: "world \<Rightarrow> op list \<Rightarrow> bool" where
  "fresh_ids w [] = True"
| "fresh_ids w (x # ops) =
     (fresh_id w x \<and> (case step w x of Inl e \<Rightarrow> False | Inr w' \<Rightarrow> fresh_ids w' ops))"

section \<open>The index invariant\<close>

definition index_ids_exist :: "MemoryStore \<Rightarrow> bool" where
  "index_ids_exist st \<longleftrightarrow>
     (\<forall>(word, ids) \<in> set (name_index st). \<forall>i \<in> ids. dict_in i (contacts st)) \<and>
     (\<forall>(p, i) \<in> set (phone_index st). dict_in i (contacts st)) \<and>
     (\<forall>(e, i) \<in> set (email_index st). dict_in i (contacts st))"

definition reached_by_name :: "world \<Rightarrow> bool" where
  "reached_by_name w \<longleftrightarrow>
     (\<forall>(i, r) \<in> set (contacts (store w)).
        \<forall>word \<in> set (str_split (str_lower (name (heap w r)))).
          (case dict_get (name_index (store w)) word of None \<Rightarrow> False | Some ids \<Rightarrow> i \<in> ids))"

definition reached_by_phone :: "world \<Rightarrow> bool" where
  "reached_by_phone w \<longleftrightarrow>
     (\<forall>(i, r) \<in> set (contacts (store w)).
        dict_get (phone_index (store w)) (phone (heap w r)) = Some i)"

definition reached_by_email :: "world \<Rightarrow> bool" where
  "reached_by_email w \<longleftrightarrow>
     (\<forall>(i, r) \<in> set (contacts (store w)).
        dict_get (email_index (store w)) (str_lower (email (heap w r))) = Some i)"

definition index_invariant :: "world \<Rightarrow> bool" where
  "index_invariant w \<longleftrightarrow>
     index_ids_exist (store w) \<and> reached_by_name w \<and> reached_by_phone w \<and> reached_by_email w"

text \<open>
  \<open>unique_key f w\<close>: no two stored contacts have the same \<open>f\<close>, where \<open>f\<close> is
  the phone string or the lowercased email; \<open>collision_free f w ops\<close>: this holds in
  \<open>w\<close> and after every operation of \<open>ops\<close>.
\<close>

definition lower_email :: "Contact \<Rightarrow> string" where
  "lower_email c = str_lower (email c)"

definition unique_key :: "(Contact \<Rightarrow> string) \<Rightarrow> world \<Rightarrow> bool" where
  "unique_key f w \<longleftrightarrow> distinct (map (\<lambda>(i, r). f (heap w r)) (contacts (store w)))"

fun collision_free :: "(Contact \<Rightarrow> string) \<Rightarrow> world \<Rightarrow> op list \<Rightarrow> bool" where
  "collision_free f w [] = unique_key f w"
| "collision_free f w (x # ops) =
     (unique_key f w \<and>
      (case step w x of Inl e \<Rightarrow> False | Inr w' \<Rightarrow> collision_free f w' ops))"

section \<open>Example stores\<close>

text \<open>
  The store after the first contact of \<open>test_app.py\<close> has been created in the
  empty store, with \<open>u1\<close> as its generated id.
\<close>

definition alice :: Contact where
  "alice = \<lparr>name = ''Alice Smith'', phone = ''1234567890'', email = ''alice@example.com'',
             contact_id = ''u1''\<rparr>"

definition alice_world :: world where
  "alice_world =
     \<lparr>heap = (heap empty_world)(0 := alice),
      next_ref = 1,
      store = \<lparr>contacts = [(''u1'', 0)],
                name_index = [(''alice'', {''u1''}), (''smith'', {''u1''})],
                phone_index = [(''1234567890'', ''u1'')],
                email_index = [(''alice@example.com'', ''u1'')]\<rparr>\<rparr>"

text \<open>
  \<open>carol_world\<close>: \<open>alice_world\<close> after the name of its contact has been updated to
  "Carol Jones". \<open>asmith_world\<close>: the same two operations for a contact whose email is
  alice.smith@example.com. \<open>smiths_world\<close>: the store after "Alice Smith" and
  "Bob Smithson" have been created.
\<close>

definition carol_world :: world where
  "carol_world =
     \<lparr>heap = (heap empty_world)(0 := alice\<lparr>name := ''Carol Jones''\<rparr>),
      next_ref = 1,
      store = \<lparr>contacts = [(''u1'', 0)],
                name_index = [(''carol'', {''u1''}), (''jones'', {''u1''})],
                phone_index = [(''1234567890'', ''u1'')],
                email_index = [(''alice@example.com'', ''u1'')]\<rparr>\<rparr>"

definition asmith_ops :: "op list" where
  "asmith_ops =
     [Create ''Alice Smith'' ''1234567890'' ''alice.smith@example.com'' ''u1'',
      Update ''u1'' [(''name'', ''Carol Jones'')]]"

definition asmith_world :: world where
  "asmith_world =
     \<lparr>heap = (heap empty_world)
               (0 := \<lparr>name = ''Carol Jones'', phone = ''1234567890'',
                      email = ''alice.smith@example.com'', contact_id = ''u1''\<rparr>),
      next_ref = 1,
      store = \<lparr>contacts = [(''u1'', 0)],
                name_index = [(''carol'', {''u1''}), (''jones'', {''u1''})],
                phone_index = [(''1234567890'', ''u1'')],
                email_index = [(''alice.smith@example.com'', ''u1'')]\<rparr>\<rparr>"

definition smiths_ops :: "op list" where
  "smiths_ops =
     [Create ''Alice Smith'' ''1234567890'' ''alice@example.com'' ''u1'',
      Create ''Bob Smithson'' ''2345678901'' ''bob@example.com'' ''u2'']"

definition smiths_world :: world where
  "smiths_world =
     \<lparr>heap = (heap empty_world)
               (0 := alice,
                1 := \<lparr>name = ''Bob Smithson'', phone = ''2345678901'',
                      email = ''bob@example.com'', contact_id = ''u2''\<rparr>),
      next_ref = 2,
      store = \<lparr>contacts = [(''u1'', 0), (''u2'', 1)],
                name_index = [(''alice'', {''u1''}), (''smith'', {''u1''}),
                              (''bob'', {''u2''}), (''smithson'', {''u2''})],
                phone_index = [(''1234567890'', ''u1''), (''2345678901'', ''u2'')],
                email_index = [(''alice@example.com'', ''u1''), (''bob@example.com'', ''u2'')]\<rparr>\<rparr>"

text \<open>
  The four operations of \<open>test_app.py\<close>, and two creates with the same phone string.
\<close>

definition test_ops :: "op list" where
  "test_ops =
     [Create ''Alice Smith'' ''1234567890'' ''alice@example.com'' ''u1'',
      Create ''Bob Jones'' ''2345678901'' ''bob@example.com'' ''u2'',
      Update ''u1'' [(''phone'', ''9999999999'')],
      Delete ''u2'']"

definition shared_phone_ops :: "op list" where
  "shared_phone_ops =
     [Create ''Alice Smith'' ''1234567890'' ''alice@example.com'' ''u1'',
      Create ''Bob Jones'' ''1234567890'' ''bob@example.com'' ''u2'']"

section \<open>What the index maintenance computes\<close>

text \<open>
  The dictionaries that \<open>_update_indexes\<close> and \<open>_remove_from_indexes\<close> leave,
  written without the exceptions: the lemmas below show that neither raises.
\<close>

definition add_id ::
  "(string, string set) dict \<Rightarrow> string \<Rightarrow> string \<Rightarrow> (string, string set) dict" where
  "add_id ni word cid =
     AList.update word (insert cid (case map_of ni word of None \<Rightarrow> {} | Some s \<Rightarrow> s)) ni"

definition drop_id ::
  "(string, string set) dict \<Rightarrow> string \<Rightarrow> string \<Rightarrow> (string, string set) dict" where
  "drop_id ni word cid =
     (case map_of ni word of
        None \<Rightarrow> ni
      | Some s \<Rightarrow>
          if s - {cid} = {} then AList.delete word ni else AList.update word (s - {cid}) ni)"

definition indexed :: "MemoryStore \<Rightarrow> Contact \<Rightarrow> MemoryStore" where
  "indexed st c =
     st\<lparr>name_index := fold (\<lambda>word ni. add_id ni word (contact_id c))
                         (str_split (str_lower (name c))) (name_index st),
        phone_index := AList.update (phone c) (contact_id c) (phone_index st),
        email_index := AList.update (str_lower (email c)) (contact_id c) (email_index st)\<rparr>"

definition unindexed :: "MemoryStore \<Rightarrow> Contact \<Rightarrow> MemoryStore" where
  "unindexed st c =
     st\<lparr>name_index := fold (\<lambda>word ni. drop_id ni word (contact_id c))
                         (str_split (str_lower (name c))) (name_index st),
        phone_index := AList.delete (phone c) (phone_index st),
        email_index := AList.delete (str_lower (email c)) (email_index st)\<rparr>"

section \<open>The invariant that the proofs carry\<close>

text \<open>
  The dictionaries seen as maps. \<open>keys_ok\<close>: every Contact is stored under its own
  id, at a reference that has been allocated. An index is sound when each of its entries
  names a stored contact whose current field is the entry's key, and complete when every
  stored contact is found under its current field.
\<close>

definition keys_ok :: "(string \<rightharpoonup> ref) \<Rightarrow> (ref \<Rightarrow> Contact) \<Rightarrow> nat \<Rightarrow> bool" where
  "keys_ok P H n \<longleftrightarrow> (\<forall>i r. P i = Some r \<longrightarrow> contact_id (H r) = i \<and> r < n)"

definition ids_sound ::
  "(string \<rightharpoonup> ref) \<Rightarrow> (ref \<Rightarrow> Contact) \<Rightarrow> (Contact \<Rightarrow> string) \<Rightarrow> (string \<rightharpoonup> string) \<Rightarrow> bool" where
  "ids_sound P H f I \<longleftrightarrow> (\<forall>k i. I k = Some i \<longrightarrow> (\<exists>r. P i = Some r \<and> f (H r) = k))"

definition ids_complete ::
  "(string \<rightharpoonup> ref) \<Rightarrow> (ref \<Rightarrow> Contact) \<Rightarrow> (Contact \<Rightarrow> string) \<Rightarrow> (string \<rightharpoonup> string) \<Rightarrow> bool" where
  "ids_complete P H f I \<longleftrightarrow> (\<forall>i r. P i = Some r \<longrightarrow> I (f (H r)) = Some i)"

definition key_unique ::
  "(string \<rightharpoonup> ref) \<Rightarrow> (ref \<Rightarrow> Contact) \<Rightarrow> (Contact \<Rightarrow> string) \<Rightarrow> bool" where
  "key_unique P H f \<longleftrightarrow>
     (\<forall>i j r s. P i = Some r \<longrightarrow> P j = Some s \<longrightarrow> f (H r) = f (H s) \<longrightarrow> i = j)"

definition name_words :: "Contact \<Rightarrow> string set" where
  "name_words c = set (str_split (str_lower (name c)))"

definition names_sound ::
  "(string \<rightharpoonup> ref) \<Rightarrow> (ref \<Rightarrow> Contact) \<Rightarrow> (string \<rightharpoonup> string set) \<Rightarrow> bool" where
  "names_sound P H N \<longleftrightarrow>
     (\<forall>word ids i. N word = Some ids \<longrightarrow> i \<in> ids \<longrightarrow>
        (\<exists>r. P i = Some r \<and> word \<in> name_words (H r)))"

definition names_complete ::
  "(string \<rightharpoonup> ref) \<Rightarrow> (ref \<Rightarrow> Contact) \<Rightarrow> (string \<rightharpoonup> string set) \<Rightarrow> bool" where
  "names_complete P H N \<longleftrightarrow>
     (\<forall>i r word. P i = Some r \<longrightarrow> word \<in> name_words (H r) \<longrightarrow>
        (\<exists>ids. N word = Some ids \<and> i \<in> ids))"

definition add_words :: "string set \<Rightarrow> string \<Rightarrow> (string \<rightharpoonup> string set) \<Rightarrow> (string \<rightharpoonup> string set)" where
  "add_words ws cid N =
     (\<lambda>w. if w \<in> ws then Some (insert cid (case N w of None \<Rightarrow> {} | Some s \<Rightarrow> s)) else N w)"

definition drop_words :: "string set \<Rightarrow> string \<Rightarrow> (string \<rightharpoonup> string set) \<Rightarrow> (string \<rightharpoonup> string set)" where
  "drop_words ws cid N =
     (\<lambda>w. if w \<in> ws
          then (case N w of None \<Rightarrow> None
                | Some s \<Rightarrow> if s - {cid} = {} then None else Some (s - {cid}))
          else N w)"

definition primary :: "world \<Rightarrow> (string \<rightharpoonup> ref)" where
  "primary w = map_of (contacts (store w))"

definition names_of :: "world \<Rightarrow> (string \<rightharpoonup> string set)" where
  "names_of w = map_of (name_index (store w))"

definition phones_of :: "world \<Rightarrow> (string \<rightharpoonup> string)" where
  "phones_of w = map_of (phone_index (store w))"

definition emails_of :: "world \<Rightarrow> (string \<rightharpoonup> string)" where
  "emails_of w = map_of (email_index (store w))"

definition dicts_distinct :: "MemoryStore \<Rightarrow> bool" where
  "dicts_distinct st \<longleftrightarrow>
     distinct (map fst (contacts st)) \<and> distinct (map fst (name_index st)) \<and>
     distinct (map fst (phone_index st)) \<and> distinct (map fst (email_index st))"

definition store_inv :: "world \<Rightarrow> bool" where
  "store_inv w \<longleftrightarrow>
     dicts_distinct (store w) \<and>
     keys_ok (primary w) (heap w) (next_ref w) \<and>
     names_sound (primary w) (heap w) (names_of w) \<and>
     names_complete (primary w) (heap w) (names_of w) \<and>
     ids_sound (primary w) (heap w) phone (phones_of w) \<and>
     ids_sound (primary w) (heap w) lower_email (emails_of w)"

section \<open>No operation raises\<close>

lemma dict_in_iff: "dict_in k d \<longleftrightarrow> map_of d k \<noteq> None"
  by (simp add: dict_in_def map_of_eq_None_iff)

lemma index_word_Inr: "index_word ni word cid = Inr (add_id ni word cid)"
  by (cases "map_of ni word")
     (simp_all add: index_word_def add_id_def dict_in_iff dict_setitem_def dict_getitem_def
        and_then_def update_conv')

lemma index_words_Inr:
  "index_words ni ws cid = Inr (fold (\<lambda>word ni. add_id ni word cid) ws ni)"
  by (induction ws arbitrary: ni) (simp_all add: index_word_Inr and_then_def)

lemma update_indexes_Inr: "update_indexes st c = Inr (indexed st c)"
  by (simp add: update_indexes_def indexed_def index_words_Inr and_then_def dict_setitem_def)

lemma unindex_word_Inr: "unindex_word ni word cid = Inr (drop_id ni word cid)"
  by (cases "map_of ni word")
     (simp_all add: unindex_word_def drop_id_def dict_in_iff dict_setitem_def dict_getitem_def
        dict_delitem_def and_then_def update_conv' delete_update_same)

lemma unindex_words_Inr:
  "unindex_words ni ws cid = Inr (fold (\<lambda>word ni. drop_id ni word cid) ws ni)"
  by (induction ws arbitrary: ni) (simp_all add: unindex_word_Inr and_then_def)

lemma remove_from_indexes_Inr: "remove_from_indexes st c = Inr (unindexed st c)"
  by (simp add: remove_from_indexes_def unindexed_def unindex_words_Inr and_then_def
        dict_delitem_def dict_in_def)

lemma contacts_unindexed [simp]: "contacts (unindexed st c) = contacts st"
  by (simp add: unindexed_def)

lemma contacts_indexed [simp]: "contacts (indexed st c) = contacts st"
  by (simp add: indexed_def)

lemma create_contact_Inr:
  "create_contact w r =
     Inr (r, w\<lparr>store := indexed ((store w)\<lparr>contacts :=
                  AList.update (contact_id (heap w r)) r (contacts (store w))\<rparr>) (heap w r)\<rparr>)"
  by (simp add: create_contact_def update_indexes_Inr and_then_def dict_setitem_def Let_def)

lemma update_contact_None:
  "map_of (contacts (store w)) cid = None \<Longrightarrow> update_contact w cid kw = Inr (None, w)"
  by (simp add: update_contact_def dict_get_def)

lemma update_contact_Some:
  "map_of (contacts (store w)) cid = Some r \<Longrightarrow>
   update_contact w cid kw =
     Inr (Some r, w\<lparr>heap := (heap w)(r := update_fields (heap w r) kw),
                    store := indexed (unindexed (store w) (heap w r))
                               (update_fields (heap w r) kw)\<rparr>)"
  by (simp add: update_contact_def dict_get_def remove_from_indexes_Inr update_indexes_Inr
        and_then_def Let_def)

lemma delete_contact_None:
  "map_of (contacts (store w)) cid = None \<Longrightarrow> delete_contact w cid = Inr (False, w)"
  by (simp add: delete_contact_def dict_get_def)

lemma delete_contact_Some:
  "map_of (contacts (store w)) cid = Some r \<Longrightarrow>
   delete_contact w cid =
     Inr (True, w\<lparr>store := (unindexed (store w) (heap w r))\<lparr>contacts :=
                    AList.delete cid (contacts (store w))\<rparr>\<rparr>)"
  by (simp add: delete_contact_def dict_get_def remove_from_indexes_Inr and_then_def
        dict_delitem_def dict_in_iff)

lemma collect_contacts_Inr:
  "collect_contacts cs ids = Inr (List.map_filter (map_of cs) ids)"
  by (induction ids) (auto simp: dict_in_iff dict_getitem_def and_then_def map_filter_simps)

lemma map_filter_map_of_subset: "set (List.map_filter (map_of cs) ids) \<subseteq> snd ` set cs"
proof
  fix r assume "r \<in> set (List.map_filter (map_of cs) ids)"
  then obtain i where "map_of cs i = Some r"
    by (auto simp: List.map_filter_def)
  then have "(i, r) \<in> set cs" by (rule map_of_SomeD)
  then show "r \<in> snd ` set cs" by force
qed

lemma search_contacts_Inr:
  "search_contacts w visit query =
     Inr (if str_strip (str_lower query) = [] then []
          else List.map_filter (map_of (contacts (store w)))
                 (visit (matching_ids (store w) (str_strip (str_lower query)))))"
  by (simp add: search_contacts_def collect_contacts_Inr Let_def)

lemma create_Inr:
  "create w n p e uuid =
     Inr (next_ref w,
          w\<lparr>heap := (heap w)(next_ref w := Contact_init n p e None uuid),
            next_ref := Suc (next_ref w),
            store := indexed ((store w)\<lparr>contacts :=
                       AList.update uuid (next_ref w) (contacts (store w))\<rparr>)
                       (Contact_init n p e None uuid)\<rparr>)"
  by (simp add: create_def new_Contact_def create_contact_Inr Contact_init_def)

section \<open>Strings: facts\<close>

lemma isspace_lower_char: "isspace c \<Longrightarrow> lower_char c = c"
  unfolding isspace_def set_simps insert_iff empty_iff
  by (elim disjE FalseE; simp add: lower_char_def)

lemma str_lower_blank: "\<forall>c \<in> set s. isspace c \<Longrightarrow> str_lower s = s"
  by (simp add: str_lower_def isspace_lower_char map_idI)

lemma str_strip_blank: "\<forall>c \<in> set s. isspace c \<Longrightarrow> str_strip s = []"
proof -
  assume "\<forall>c \<in> set s. isspace c"
  then have blank: "dropWhile isspace s = []" by simp
  show ?thesis unfolding str_strip_def blank by simp
qed

lemma split_alice: "str_split (str_lower ''Alice Smith'') = [''alice'', ''smith'']"
  by (simp add: str_lower_def lower_char_def str_split_def isspace_def)

lemma lower_alice_email: "str_lower ''alice@example.com'' = ''alice@example.com''"
  by (simp add: str_lower_def lower_char_def)

section \<open>Contact.update_fields: facts\<close>

lemma update_fields_contact_id [simp]: "contact_id (update_fields c kw) = contact_id c"
  by (induction c kw rule: update_fields.induct) (simp_all add: setattr_def hasattr_def)

lemma setattr_name: "''name'' \<noteq> field \<Longrightarrow> name (setattr c field v) = name c"
  by (simp add: setattr_def)

lemma setattr_phone: "''phone'' \<noteq> field \<Longrightarrow> phone (setattr c field v) = phone c"
  by (simp add: setattr_def)

lemma setattr_email: "''email'' \<noteq> field \<Longrightarrow> email (setattr c field v) = email c"
  by (simp add: setattr_def)

lemma update_fields_name: "''name'' \<notin> fst ` set kw \<Longrightarrow> name (update_fields c kw) = name c"
  by (induction c kw rule: update_fields.induct) (simp_all add: setattr_name)

lemma update_fields_phone: "''phone'' \<notin> fst ` set kw \<Longrightarrow> phone (update_fields c kw) = phone c"
  by (induction c kw rule: update_fields.induct) (simp_all add: setattr_phone)

lemma update_fields_email: "''email'' \<notin> fst ` set kw \<Longrightarrow> email (update_fields c kw) = email c"
  by (induction c kw rule: update_fields.induct) (simp_all add: setattr_email)

section \<open>The example stores are the ones the code builds\<close>

lemma create_alice:
  "create empty_world ''Alice Smith'' ''1234567890'' ''alice@example.com'' ''u1'' =
     Inr (0, alice_world)"
  by (simp add: create_def new_Contact_def Contact_init_def create_contact_Inr indexed_def
        split_alice lower_alice_email add_id_def empty_world_def MemoryStore_init_def
        alice_world_def alice_def)

lemmas run_simps =
  create_Inr and_then_def update_contact_def delete_contact_def dict_get_def dict_in_def
  dict_delitem_def remove_from_indexes_Inr update_indexes_Inr Let_def
  indexed_def unindexed_def add_id_def drop_id_def Contact_init_def
  empty_world_def MemoryStore_init_def
  str_split_def str_lower_def lower_char_def isspace_def
  hasattr_def setattr_def

lemma fresh_test_ops: "fresh_ids empty_world test_ops"
  by (simp add: test_ops_def run_simps)

lemma phones_test_ops: "collision_free phone empty_world test_ops"
  by (simp add: test_ops_def run_simps unique_key_def)

lemma emails_test_ops: "collision_free lower_email empty_world test_ops"
  by (simp add: test_ops_def run_simps unique_key_def lower_email_def)

lemma update_alice:
  "update_contact alice_world ''u1'' [(''name'', ''Carol Jones'')] = Inr (Some 0, carol_world)"
  by (simp add: alice_world_def alice_def carol_world_def run_simps)

lemma run_asmith: "run empty_world asmith_ops = Inr asmith_world"
  by (simp add: asmith_ops_def asmith_world_def run_simps)

lemma run_smiths: "run empty_world smiths_ops = Inr smiths_world"
  by (simp add: smiths_ops_def smiths_world_def alice_def run_simps)

lemma fresh_smiths: "fresh_ids empty_world smiths_ops"
  by (simp add: smiths_ops_def run_simps)

lemma fresh_alice:
  "fresh_ids empty_world [Create ''Alice Smith'' ''1234567890'' ''alice@example.com'' ''u1'']"
  by (simp add: run_simps)

lemma run_alice:
  "run empty_world [Create ''Alice Smith'' ''1234567890'' ''alice@example.com'' ''u1''] =
     Inr alice_world"
  by (simp add: create_alice and_then_def)

section \<open>Update\<close>

text \<open>
  C10. Update is atomic on failure: when the id is not a key of the primary map,
  \<open>update_contact\<close> returns \<open>None\<close> and the whole state (the primary map, the three
  indexes and every Contact object) is as it was before the call.
\<close>

theorem update_absent_unchanged:
  "\<not> dict_in cid (contacts (store w)) \<Longrightarrow> update_contact w cid updates = Inr (None, w)"
  by (simp add: dict_in_iff update_contact_None)

theorem update_absent_unchanged_witness:
  "\<not> dict_in ''u2'' (contacts (store alice_world)) \<and>
   update_contact alice_world ''u2'' [(''name'', ''Carol Jones'')] = Inr (None, alice_world)"
  using update_absent_unchanged [of "''u2''" alice_world "[(''name'', ''Carol Jones'')]"]
  by (simp add: dict_in_def alice_world_def)

text \<open>
  C4. Update changes only the fields it is given: for a contact stored under the id,
  \<open>update_contact\<close> returns that contact, still stored under the same id; its id is
  unchanged, each of name, phone and email that is not among the keywords keeps its
  value, every other Contact object is untouched and the primary map is the same.
\<close>

theorem update_contact_frame:
  "get_contact w cid = Some r \<Longrightarrow>
   \<exists>w'. update_contact w cid updates = Inr (Some r, w') \<and>
        get_contact w' cid = Some r \<and>
        contact_id (heap w' r) = contact_id (heap w r) \<and>
        (''name'' \<notin> fst ` set updates \<longrightarrow> name (heap w' r) = name (heap w r)) \<and>
        (''phone'' \<notin> fst ` set updates \<longrightarrow> phone (heap w' r) = phone (heap w r)) \<and>
        (''email'' \<notin> fst ` set updates \<longrightarrow> email (heap w' r) = email (heap w r)) \<and>
        (\<forall>r'. r' \<noteq> r \<longrightarrow> heap w' r' = heap w r') \<and>
        contacts (store w') = contacts (store w)"
  by (simp add: get_contact_def dict_get_def update_contact_Some update_fields_name
        update_fields_phone update_fields_email)

theorem update_contact_frame_witness:
  "get_contact alice_world ''u1'' = Some 0 \<and>
   (\<exists>w'. update_contact alice_world ''u1'' [(''phone'', ''9999999999'')] = Inr (Some 0, w') \<and>
         get_contact w' ''u1'' = Some 0 \<and>
         contact_id (heap w' 0) = ''u1'' \<and>
         name (heap w' 0) = ''Alice Smith'' \<and>
         email (heap w' 0) = ''alice@example.com'') \<and>
   update_contact alice_world ''u1'' [(''name'', ''Carol Jones'')] = Inr (Some 0, carol_world) \<and>
   contact_id (heap carol_world 0) = ''u1'' \<and>
   phone (heap carol_world 0) = ''1234567890'' \<and>
   email (heap carol_world 0) = ''alice@example.com''"
proof -
  have stored: "get_contact alice_world ''u1'' = Some 0"
    by (simp add: get_contact_def dict_get_def alice_world_def)
  have fields: "contact_id (heap alice_world 0) = ''u1''"
    "name (heap alice_world 0) = ''Alice Smith''"
    "phone (heap alice_world 0) = ''1234567890''"
    "email (heap alice_world 0) = ''alice@example.com''"
    by (simp_all add: alice_world_def alice_def)
  have keys: "''name'' \<notin> fst ` set [(''phone'', ''9999999999'')]"
    "''email'' \<notin> fst ` set [(''phone'', ''9999999999'')]"
    "''phone'' \<notin> fst ` set [(''name'', ''Carol Jones'')]"
    "''email'' \<notin> fst ` set [(''name'', ''Carol Jones'')]"
    by simp_all
  from update_contact_frame [OF stored, of "[(''phone'', ''9999999999'')]"] keys
  obtain w' where
    "update_contact alice_world ''u1'' [(''phone'', ''9999999999'')] = Inr (Some 0, w')"
    "get_contact w' ''u1'' = Some 0"
    "contact_id (heap w' 0) = contact_id (heap alice_world 0)"
    "name (heap w' 0) = name (heap alice_world 0)"
    "email (heap w' 0) = email (heap alice_world 0)"
    by blast
  with fields have phone_only:
    "\<exists>w'. update_contact alice_world ''u1'' [(''phone'', ''9999999999'')] = Inr (Some 0, w') \<and>
          get_contact w' ''u1'' = Some 0 \<and>
          contact_id (heap w' 0) = ''u1'' \<and>
          name (heap w' 0) = ''Alice Smith'' \<and>
          email (heap w' 0) = ''alice@example.com''"
    by metis
  from update_contact_frame [OF stored, of "[(''name'', ''Carol Jones'')]"] keys
  obtain w'' where
    "update_contact alice_world ''u1'' [(''name'', ''Carol Jones'')] = Inr (Some 0, w'')"
    "contact_id (heap w'' 0) = contact_id (heap alice_world 0)"
    "phone (heap w'' 0) = phone (heap alice_world 0)"
    "email (heap w'' 0) = email (heap alice_world 0)"
    by blast
  with update_alice fields have name_only:
    "contact_id (heap carol_world 0) = ''u1''"
    "phone (heap carol_world 0) = ''1234567890''"
    "email (heap carol_world 0) = ''alice@example.com''"
    by simp_all
  from stored phone_only update_alice name_only show ?thesis by blast
qed

section \<open>Delete\<close>



section \<open>Search\<close>

text \<open>
  C7. Empty-query guard: for every state of the store and every query that is empty or
  made of whitespace only, \<open>search_contacts\<close> returns the empty list, whatever the
  store holds.
\<close>

theorem search_blank_query:
  "blank query \<Longrightarrow> search_contacts w visit query = Inr []"
  by (simp add: blank_def search_contacts_def str_lower_blank str_strip_blank)

theorem search_blank_query_witness:
  "blank ''   '' \<and>
   search_contacts alice_world (\<lambda>S. [''u1'']) ''   '' = Inr [] \<and>
   blank [] \<and>
   search_contacts alice_world (\<lambda>S. [''u1'']) [] = Inr [] \<and>
   get_all_contacts alice_world = [0]"
proof -
  have spaces: "blank ''   ''"
    by (simp add: blank_def isspace_def)
  have empty: "blank []"
    by (simp add: blank_def)
  have "get_all_contacts alice_world = [0]"
    by (simp add: get_all_contacts_def alice_world_def)
  with spaces empty search_blank_query [OF spaces, of alice_world "\<lambda>S. [''u1'']"]
    search_blank_query [OF empty, of alice_world "\<lambda>S. [''u1'']"]
  show ?thesis by blast
qed

section \<open>Create and get\<close>

text \<open>
  C8. Round trip: in every state of the store, creating the contact
  ("Dana Lee", "5551234567", "dana@x.com") succeeds, and \<open>get_contact\<close> with the id it
  was given returns the created Contact, whose name, phone and email are those three
  strings and whose id is the generated one.
\<close>

theorem create_get_roundtrip:
  "\<exists>r w'. create w ''Dana Lee'' ''5551234567'' ''dana@x.com'' uuid = Inr (r, w') \<and>
          get_contact w' (contact_id (heap w' r)) = Some r \<and>
          heap w' r = \<lparr>name = ''Dana Lee'', phone = ''5551234567'', email = ''dana@x.com'',
                       contact_id = uuid\<rparr>"
  by (simp add: create_def new_Contact_def Contact_init_def create_contact_Inr get_contact_def
        dict_get_def update_conv')

theorem create_get_roundtrip_witness:
  "\<exists>r w'. create alice_world ''Dana Lee'' ''5551234567'' ''dana@x.com'' ''u2'' = Inr (r, w') \<and>
          get_contact w' (contact_id (heap w' r)) = Some r \<and>
          heap w' r = \<lparr>name = ''Dana Lee'', phone = ''5551234567'', email = ''dana@x.com'',
                       contact_id = ''u2''\<rparr>"
  by (rule create_get_roundtrip [of alice_world "''u2''"])

section \<open>Not found\<close>

text \<open>
  C5, as stated, fails: \<open>update_contact\<close> is not the only operation that can come
  back with not-found. \<open>get_contact\<close> returns the same \<open>None\<close> for an id that is not
  a key of the primary map.
\<close>

theorem get_not_found_counterexample:
  "get_contact alice_world ''u2'' = None \<and>
   update_contact alice_world ''u2'' [] = Inr (None, alice_world)"
  by (simp add: get_contact_def update_contact_def dict_get_def alice_world_def)


text \<open>
  C5, amended. \<open>update_contact\<close> returns \<open>None\<close> exactly when the id is not a key
  of the primary map, and otherwise returns the stored Contact with its fields updated;
  \<open>get_contact\<close> returns \<open>None\<close> exactly when the id is not a key; create, delete
  and search always return a result, and no operation raises.
\<close>

theorem not_found_iff:
  "((\<exists>w'. update_contact w cid updates = Inr (None, w')) \<longleftrightarrow>
      \<not> dict_in cid (contacts (store w))) \<and>
   (\<forall>r. get_contact w cid = Some r \<longrightarrow>
      (\<exists>w'. update_contact w cid updates = Inr (Some r, w') \<and>
            heap w' r = update_fields (heap w r) updates \<and>
            get_contact w' cid = Some r)) \<and>
   (get_contact w cid = None \<longleftrightarrow> \<not> dict_in cid (contacts (store w))) \<and>
   (\<exists>r w'. create w n p e uuid = Inr (r, w')) \<and>
   (\<exists>b w'. delete_contact w cid' = Inr (b, w')) \<and>
   (\<exists>rs. search_contacts w visit query = Inr rs)"
proof -
  have upd: "((\<exists>w'. update_contact w cid updates = Inr (None, w')) \<longleftrightarrow>
      \<not> dict_in cid (contacts (store w)))"
    by (cases "map_of (contacts (store w)) cid")
       (simp_all add: dict_in_iff update_contact_None update_contact_Some)
  have upd2: "\<forall>r. get_contact w cid = Some r \<longrightarrow>
      (\<exists>w'. update_contact w cid updates = Inr (Some r, w') \<and>
            heap w' r = update_fields (heap w r) updates \<and>
            get_contact w' cid = Some r)"
    by (simp add: get_contact_def dict_get_def update_contact_Some)
  have get: "get_contact w cid = None \<longleftrightarrow> \<not> dict_in cid (contacts (store w))"
    by (simp add: get_contact_def dict_get_def dict_in_iff)
  have cr: "\<exists>r w'. create w n p e uuid = Inr (r, w')"
    by (simp add: create_Inr)
  have del: "\<exists>b w'. delete_contact w cid' = Inr (b, w')"
  proof (cases "map_of (contacts (store w)) cid'")
    case None
    then have "delete_contact w cid' = Inr (False, w)" by (rule delete_contact_None)
    then show ?thesis by blast
  next
    case (Some r)
    from delete_contact_Some [OF this] show ?thesis by blast
  qed
  have se: "\<exists>rs. search_contacts w visit query = Inr rs"
    by (simp add: search_contacts_Inr)
  from upd upd2 get cr del se show ?thesis by blast
qed

theorem not_found_iff_witness:
  "get_contact alice_world ''u1'' = Some 0 \<and>
   (\<exists>w'. update_contact alice_world ''u1'' [(''phone'', ''9999999999'')] = Inr (Some 0, w') \<and>
         heap w' 0 = update_fields (heap alice_world 0) [(''phone'', ''9999999999'')] \<and>
         get_contact w' ''u1'' = Some 0)"
proof -
  have stored: "get_contact alice_world ''u1'' = Some 0"
    by (simp add: get_contact_def dict_get_def alice_world_def)
  with not_found_iff [of alice_world "''u1''" "[(''phone'', ''9999999999'')]"]
  show ?thesis by blast
qed

section \<open>Returned contacts\<close>

text \<open>
  C9, as stated, fails: \<open>get_contact\<close> returns the reference that the primary map
  holds, so an assignment by the caller to the name of the returned Contact changes the
  Contact of the primary map, and the name index no longer reaches it.
\<close>

theorem caller_mutation_counterexample:
  "get_contact alice_world ''u1'' = Some 0 \<and>
   name (heap alice_world 0) = ''Alice Smith'' \<and>
   get_contact (caller_setattr alice_world 0 ''name'' ''Zed'') ''u1'' = Some 0 \<and>
   name (heap (caller_setattr alice_world 0 ''name'' ''Zed'') 0) = ''Zed'' \<and>
   reached_by_name alice_world \<and>
   \<not> reached_by_name (caller_setattr alice_world 0 ''name'' ''Zed'')"
  by (simp add: get_contact_def dict_get_def alice_world_def alice_def caller_setattr_def
        setattr_def reached_by_name_def split_alice str_lower_def lower_char_def
        str_split_def isspace_def)


text \<open>
  C9, amended. Every operation that returns Contact data returns references to the
  store's own Contact objects and makes no copy: get, create and update return the
  reference stored under the id, search and list return references held in the primary
  map. An assignment by the caller to a field of a Contact returned by get changes that
  stored Contact and leaves the four dictionaries as they were.
\<close>

theorem returned_contacts_are_stored:
  "(\<forall>r. get_contact w cid = Some r \<longrightarrow>
       r \<in> snd ` set (contacts (store w)) \<and>
       get_contact (caller_setattr w r field v) cid = Some r \<and>
       heap (caller_setattr w r field v) r = setattr (heap w r) field v \<and>
       store (caller_setattr w r field v) = store w) \<and>
   (\<forall>r w'. create_contact w contact = Inr (r, w') \<longrightarrow>
       r = contact \<and> get_contact w' (contact_id (heap w contact)) = Some contact) \<and>
   (\<forall>r w'. update_contact w cid updates = Inr (Some r, w') \<longrightarrow>
       get_contact w cid = Some r \<and> get_contact w' cid = Some r) \<and>
   (\<forall>rs. search_contacts w visit query = Inr rs \<longrightarrow> set rs \<subseteq> snd ` set (contacts (store w))) \<and>
   set (get_all_contacts w) = snd ` set (contacts (store w))"
proof -
  have g: "\<forall>r. get_contact w cid = Some r \<longrightarrow>
       r \<in> snd ` set (contacts (store w)) \<and>
       get_contact (caller_setattr w r field v) cid = Some r \<and>
       heap (caller_setattr w r field v) r = setattr (heap w r) field v \<and>
       store (caller_setattr w r field v) = store w"
  proof (intro allI impI)
    fix r assume "get_contact w cid = Some r"
    then have m: "map_of (contacts (store w)) cid = Some r"
      by (simp add: get_contact_def dict_get_def)
    then have "(cid, r) \<in> set (contacts (store w))" by (rule map_of_SomeD)
    then have "r \<in> snd ` set (contacts (store w))" by force
    with m show "r \<in> snd ` set (contacts (store w)) \<and>
       get_contact (caller_setattr w r field v) cid = Some r \<and>
       heap (caller_setattr w r field v) r = setattr (heap w r) field v \<and>
       store (caller_setattr w r field v) = store w"
      by (simp add: get_contact_def dict_get_def caller_setattr_def)
  qed
  have c: "\<forall>r w'. create_contact w contact = Inr (r, w') \<longrightarrow>
       r = contact \<and> get_contact w' (contact_id (heap w contact)) = Some contact"
    by (auto simp: create_contact_Inr get_contact_def dict_get_def update_conv')
  have u: "\<forall>r w'. update_contact w cid updates = Inr (Some r, w') \<longrightarrow>
       get_contact w cid = Some r \<and> get_contact w' cid = Some r"
    by (cases "map_of (contacts (store w)) cid")
       (auto simp: update_contact_None update_contact_Some get_contact_def dict_get_def)
  have s: "\<forall>rs. search_contacts w visit query = Inr rs \<longrightarrow>
       set rs \<subseteq> snd ` set (contacts (store w))"
    by (simp add: search_contacts_Inr map_filter_map_of_subset)
  have l: "set (get_all_contacts w) = snd ` set (contacts (store w))"
    by (simp add: get_all_contacts_def)
  from g c u s l show ?thesis by blast
qed

theorem returned_contacts_are_stored_witness:
  "get_contact alice_world ''u1'' = Some 0 \<and>
   0 \<in> snd ` set (contacts (store alice_world)) \<and>
   get_contact (caller_setattr alice_world 0 ''phone'' ''5550000000'') ''u1'' = Some 0 \<and>
   heap (caller_setattr alice_world 0 ''phone'' ''5550000000'') 0 =
     setattr (heap alice_world 0) ''phone'' ''5550000000'' \<and>
   store (caller_setattr alice_world 0 ''phone'' ''5550000000'') = store alice_world \<and>
   create_contact (empty_world\<lparr>heap := (heap empty_world)(0 := alice), next_ref := 1\<rparr>) 0 =
     Inr (0, alice_world) \<and>
   get_contact alice_world ''u1'' = Some 0 \<and>
   update_contact alice_world ''u1'' [(''name'', ''Carol Jones'')] = Inr (Some 0, carol_world) \<and>
   get_contact carol_world ''u1'' = Some 0 \<and>
   search_contacts alice_world (\<lambda>S. [''u1'']) ''smith'' = Inr [0] \<and>
   set [0] \<subseteq> snd ` set (contacts (store alice_world))"
proof -
  let ?w0 = "empty_world\<lparr>heap := (heap empty_world)(0 := alice), next_ref := 1\<rparr>"
  have stored: "get_contact alice_world ''u1'' = Some 0"
    by (simp add: get_contact_def dict_get_def alice_world_def)
  have first: "next_ref empty_world = 0"
    by (simp add: empty_world_def)
  have created: "create_contact ?w0 0 = Inr (0, alice_world)"
    using create_alice
    by (simp add: create_def new_Contact_def Contact_init_def alice_def first)
  have found: "search_contacts alice_world (\<lambda>S. [''u1'']) ''smith'' = Inr [0]"
    by (simp add: search_contacts_Inr List.map_filter_def alice_world_def str_lower_def
          lower_char_def str_strip_def isspace_def)
  have cid: "contact_id (heap ?w0 0) = ''u1''"
    by (simp add: alice_def)
  from stored
    returned_contacts_are_stored [of alice_world "''u1''" "''phone''" "''5550000000''" 0
      "[(''name'', ''Carol Jones'')]" "\<lambda>S. [''u1'']" "''smith''"]
  have got: "0 \<in> snd ` set (contacts (store alice_world))"
    "get_contact (caller_setattr alice_world 0 ''phone'' ''5550000000'') ''u1'' = Some 0"
    "heap (caller_setattr alice_world 0 ''phone'' ''5550000000'') 0 =
       setattr (heap alice_world 0) ''phone'' ''5550000000''"
    "store (caller_setattr alice_world 0 ''phone'' ''5550000000'') = store alice_world"
    by blast+
  from update_alice
    returned_contacts_are_stored [of alice_world "''u1''" "''phone''" "''5550000000''" 0
      "[(''name'', ''Carol Jones'')]" "\<lambda>S. [''u1'']" "''smith''"]
  have updated: "get_contact carol_world ''u1'' = Some 0"
    by blast
  from found
    returned_contacts_are_stored [of alice_world "''u1''" "''phone''" "''5550000000''" 0
      "[(''name'', ''Carol Jones'')]" "\<lambda>S. [''u1'']" "''smith''"]
  have listed: "set [0] \<subseteq> snd ` set (contacts (store alice_world))"
    by blast
  from created cid
    returned_contacts_are_stored [of ?w0 "''u1''" "''phone''" "''5550000000''" 0
      "[(''name'', ''Carol Jones'')]" "\<lambda>S. [''u1'']" "''smith''"]
  have "get_contact alice_world ''u1'' = Some 0"
    by (metis (no_types, lifting))
  with stored got created update_alice updated found listed show ?thesis by blast
qed

section \<open>The index invariant along a sequence of operations\<close>

subsection \<open>The name index as a map, after adding and dropping an id\<close>

lemma map_of_add_id:
  "map_of (add_id ni word cid) = add_words {word} cid (map_of ni)"
  by (auto simp: add_id_def add_words_def update_conv' fun_eq_iff)

lemma add_words_insert:
  "add_words ws cid (add_words {word} cid N) = add_words (insert word ws) cid N"
  by (auto simp: add_words_def fun_eq_iff)

lemma map_of_add_ids:
  "map_of (fold (\<lambda>word ni. add_id ni word cid) ws ni) = add_words (set ws) cid (map_of ni)"
proof (induction ws arbitrary: ni)
  case Nil
  show ?case by (simp add: add_words_def)
next
  case (Cons word ws)
  show ?case by (simp add: Cons.IH map_of_add_id add_words_insert)
qed

lemma map_of_drop_id:
  "map_of (drop_id ni word cid) = drop_words {word} cid (map_of ni)"
  by (auto simp: drop_id_def drop_words_def update_conv' delete_conv' fun_eq_iff
      split: option.splits)

lemma drop_words_insert:
  "drop_words ws cid (drop_words {word} cid N) = drop_words (insert word ws) cid N"
  by (auto simp: drop_words_def fun_eq_iff split: option.splits)

lemma map_of_drop_ids:
  "map_of (fold (\<lambda>word ni. drop_id ni word cid) ws ni) = drop_words (set ws) cid (map_of ni)"
proof (induction ws arbitrary: ni)
  case Nil
  show ?case by (simp add: drop_words_def)
next
  case (Cons word ws)
  show ?case by (simp add: Cons.IH map_of_drop_id drop_words_insert)
qed

lemma distinct_add_id: "distinct (map fst ni) \<Longrightarrow> distinct (map fst (add_id ni word cid))"
  by (simp add: add_id_def distinct_update)

lemma distinct_drop_id: "distinct (map fst ni) \<Longrightarrow> distinct (map fst (drop_id ni word cid))"
  by (simp add: drop_id_def distinct_update distinct_delete split: option.splits)

lemma distinct_add_ids:
  "distinct (map fst ni) \<Longrightarrow> distinct (map fst (fold (\<lambda>word ni. add_id ni word cid) ws ni))"
  by (induction ws arbitrary: ni) (simp_all add: distinct_add_id)

lemma distinct_drop_ids:
  "distinct (map fst ni) \<Longrightarrow> distinct (map fst (fold (\<lambda>word ni. drop_id ni word cid) ws ni))"
  by (induction ws arbitrary: ni) (simp_all add: distinct_drop_id)

subsection \<open>An index with one id for each key\<close>

lemma keys_ok_inj: "keys_ok P H n \<Longrightarrow> P i = Some r \<Longrightarrow> P j = Some r \<Longrightarrow> i = j"
  by (metis keys_ok_def)

lemma keys_ok_create:
  "keys_ok P H n \<Longrightarrow> contact_id c = u \<Longrightarrow> keys_ok (P(u \<mapsto> n)) (H(n := c)) (Suc n)"
  unfolding keys_ok_def by (auto simp: less_Suc_eq)

lemma keys_ok_update:
  "keys_ok P H n \<Longrightarrow> contact_id c' = contact_id (H r) \<Longrightarrow> keys_ok P (H(r := c')) n"
  unfolding keys_ok_def by auto

lemma keys_ok_delete: "keys_ok P H n \<Longrightarrow> keys_ok (P(cid := None)) H n"
  unfolding keys_ok_def by auto

lemma keys_ok_fresh: "keys_ok P H n \<Longrightarrow> P i \<noteq> Some n"
  unfolding keys_ok_def by auto

lemma ids_sound_create:
  assumes s: "ids_sound P H f I" and u: "P u = None" and r0: "\<forall>i. P i \<noteq> Some r0"
  shows "ids_sound (P(u \<mapsto> r0)) (H(r0 := c)) f (I(f c \<mapsto> u))"
  unfolding ids_sound_def
proof (intro allI impI)
  fix k i assume e: "(I(f c \<mapsto> u)) k = Some i"
  show "\<exists>r. (P(u \<mapsto> r0)) i = Some r \<and> f ((H(r0 := c)) r) = k"
  proof (cases "k = f c")
    case True
    with e have "i = u" by simp
    with True show ?thesis by simp
  next
    case False
    with e have "I k = Some i" by simp
    with s obtain r where pr: "P i = Some r" and fr: "f (H r) = k"
      unfolding ids_sound_def by blast
    from pr u have "i \<noteq> u" by auto
    moreover from pr r0 have "r \<noteq> r0" by metis
    ultimately show ?thesis using pr fr by simp
  qed
qed

lemma ids_complete_create:
  "ids_complete P H f I \<Longrightarrow> P u = None \<Longrightarrow> \<forall>i. P i \<noteq> Some r0 \<Longrightarrow>
   key_unique (P(u \<mapsto> r0)) (H(r0 := c)) f \<Longrightarrow>
   ids_complete (P(u \<mapsto> r0)) (H(r0 := c)) f (I(f c \<mapsto> u))"
proof -
  assume c: "ids_complete P H f I" and u: "P u = None" and r0: "\<forall>i. P i \<noteq> Some r0"
    and un: "key_unique (P(u \<mapsto> r0)) (H(r0 := c)) f"
  show ?thesis
    unfolding ids_complete_def
  proof (intro allI impI)
    fix i r assume p: "(P(u \<mapsto> r0)) i = Some r"
    show "(I(f c \<mapsto> u)) (f ((H(r0 := c)) r)) = Some i"
    proof (cases "i = u")
      case True
      with p show ?thesis by simp
    next
      case False
      with p have pi: "P i = Some r" by simp
      with r0 have rr: "r \<noteq> r0" by metis
      from c pi have "I (f (H r)) = Some i" by (simp add: ids_complete_def)
      moreover have "f (H r) \<noteq> f c"
      proof
        assume "f (H r) = f c"
        with rr have "f ((H(r0 := c)) r) = f ((H(r0 := c)) r0)" by simp
        moreover have "(P(u \<mapsto> r0)) u = Some r0" by simp
        ultimately have "i = u" using un p unfolding key_unique_def by blast
        with False show False by simp
      qed
      ultimately show ?thesis using rr by simp
    qed
  qed
qed

lemma ids_sound_update:
  assumes s: "ids_sound P H f I" and p: "P cid = Some r"
  shows "ids_sound P (H(r := c')) f ((I(f (H r) := None))(f c' \<mapsto> cid))"
  unfolding ids_sound_def
proof (intro allI impI)
  fix k i assume e: "((I(f (H r) := None))(f c' \<mapsto> cid)) k = Some i"
  show "\<exists>r1. P i = Some r1 \<and> f ((H(r := c')) r1) = k"
  proof (cases "k = f c'")
    case True
    with e have "i = cid" by simp
    with True p show ?thesis by simp
  next
    case False
    with e have ne: "k \<noteq> f (H r)" and "I k = Some i" by (auto split: if_splits)
    with s obtain r1 where pr: "P i = Some r1" and fr: "f (H r1) = k"
      unfolding ids_sound_def by blast
    from fr ne have "r1 \<noteq> r" by auto
    with pr fr show ?thesis by simp
  qed
qed

lemma ids_complete_update:
  assumes c: "ids_complete P H f I" and k: "keys_ok P H n" and p: "P cid = Some r"
    and un: "key_unique P H f" and un': "key_unique P (H(r := c')) f"
  shows "ids_complete P (H(r := c')) f ((I(f (H r) := None))(f c' \<mapsto> cid))"
  unfolding ids_complete_def
proof (intro allI impI)
  fix i r1 assume pi: "P i = Some r1"
  show "((I(f (H r) := None))(f c' \<mapsto> cid)) (f ((H(r := c')) r1)) = Some i"
  proof (cases "r1 = r")
    case True
    with pi p k have "i = cid" by (metis keys_ok_inj)
    with True show ?thesis by simp
  next
    case False
    with pi p have ne: "i \<noteq> cid" by auto
    from c pi have "I (f (H r1)) = Some i" by (simp add: ids_complete_def)
    moreover from un pi p ne have "f (H r1) \<noteq> f (H r)" unfolding key_unique_def by blast
    moreover have "f (H r1) \<noteq> f c'"
    proof
      assume "f (H r1) = f c'"
      with False have "f ((H(r := c')) r1) = f ((H(r := c')) r)" by simp
      with un' pi p have "i = cid" unfolding key_unique_def by blast
      with ne show False by simp
    qed
    ultimately show ?thesis using False by simp
  qed
qed

lemma ids_sound_delete:
  assumes s: "ids_sound P H f I" and p: "P cid = Some r"
  shows "ids_sound (P(cid := None)) H f (I(f (H r) := None))"
  unfolding ids_sound_def
proof (intro allI impI)
  fix k i assume e: "(I(f (H r) := None)) k = Some i"
  then have ne: "k \<noteq> f (H r)" and "I k = Some i" by (auto split: if_splits)
  with s obtain r1 where pr: "P i = Some r1" and fr: "f (H r1) = k"
    unfolding ids_sound_def by blast
  from fr ne have "r1 \<noteq> r" by auto
  with pr p have "i \<noteq> cid" by auto
  with pr fr show "\<exists>r1. (P(cid := None)) i = Some r1 \<and> f (H r1) = k" by simp
qed

lemma ids_complete_delete:
  assumes c: "ids_complete P H f I" and p: "P cid = Some r" and un: "key_unique P H f"
  shows "ids_complete (P(cid := None)) H f (I(f (H r) := None))"
  unfolding ids_complete_def
proof (intro allI impI)
  fix i r1 assume pi: "(P(cid := None)) i = Some r1"
  then have ne: "i \<noteq> cid" and pi': "P i = Some r1" by (auto split: if_splits)
  from c pi' have "I (f (H r1)) = Some i" by (simp add: ids_complete_def)
  moreover from un pi' p ne have "f (H r1) \<noteq> f (H r)" unfolding key_unique_def by blast
  ultimately show "(I(f (H r) := None)) (f (H r1)) = Some i" by simp
qed

subsection \<open>The name index\<close>

lemma names_sound_create:
  assumes s: "names_sound P H N" and u: "P u = None" and r0: "\<forall>i. P i \<noteq> Some r0"
  shows "names_sound (P(u \<mapsto> r0)) (H(r0 := c)) (add_words (name_words c) u N)"
  unfolding names_sound_def
proof (intro allI impI)
  fix word ids i
  assume e: "add_words (name_words c) u N word = Some ids" and i: "i \<in> ids"
  show "\<exists>r. (P(u \<mapsto> r0)) i = Some r \<and> word \<in> name_words ((H(r0 := c)) r)"
  proof (cases "i = u \<and> word \<in> name_words c")
    case True
    then show ?thesis by simp
  next
    case False
    with e i obtain ids0 where "N word = Some ids0" and "i \<in> ids0"
      by (auto simp: add_words_def split: if_splits option.splits)
    with s obtain r where pr: "P i = Some r" and wr: "word \<in> name_words (H r)"
      unfolding names_sound_def by blast
    from pr u have "i \<noteq> u" by auto
    moreover from pr r0 have "r \<noteq> r0" by metis
    ultimately show ?thesis using pr wr by simp
  qed
qed

lemma names_complete_create:
  assumes c: "names_complete P H N" and u: "P u = None" and r0: "\<forall>i. P i \<noteq> Some r0"
  shows "names_complete (P(u \<mapsto> r0)) (H(r0 := c)) (add_words (name_words c) u N)"
  unfolding names_complete_def
proof (intro allI impI)
  fix i r word
  assume p: "(P(u \<mapsto> r0)) i = Some r" and w: "word \<in> name_words ((H(r0 := c)) r)"
  show "\<exists>ids. add_words (name_words c) u N word = Some ids \<and> i \<in> ids"
  proof (cases "i = u")
    case True
    with p w show ?thesis by (simp add: add_words_def)
  next
    case False
    with p have pi: "P i = Some r" by simp
    with r0 have "r \<noteq> r0" by metis
    with w have "word \<in> name_words (H r)" by simp
    with c pi obtain ids where "N word = Some ids" and "i \<in> ids"
      unfolding names_complete_def by blast
    then show ?thesis by (simp add: add_words_def)
  qed
qed

lemma names_sound_delete:
  assumes s: "names_sound P H N" and p: "P cid = Some r"
  shows "names_sound (P(cid := None)) H (drop_words (name_words (H r)) cid N)"
  unfolding names_sound_def
proof (intro allI impI)
  fix word ids i
  assume e: "drop_words (name_words (H r)) cid N word = Some ids" and i: "i \<in> ids"
  from e i obtain ids0 where n: "N word = Some ids0" and i0: "i \<in> ids0"
    and d: "word \<in> name_words (H r) \<longrightarrow> i \<noteq> cid"
    by (auto simp: drop_words_def split: if_splits option.splits)
  from s n i0 obtain r1 where pr: "P i = Some r1" and wr: "word \<in> name_words (H r1)"
    unfolding names_sound_def by blast
  have "i \<noteq> cid"
  proof
    assume "i = cid"
    with pr p have "r1 = r" by simp
    with wr d \<open>i = cid\<close> show False by simp
  qed
  with pr wr show "\<exists>r. (P(cid := None)) i = Some r \<and> word \<in> name_words (H r)" by simp
qed

lemma names_complete_delete:
  assumes c: "names_complete P H N" and p: "P cid = Some r"
  shows "names_complete (P(cid := None)) H (drop_words (name_words (H r)) cid N)"
  unfolding names_complete_def
proof (intro allI impI)
  fix i r1 word
  assume pi: "(P(cid := None)) i = Some r1" and w: "word \<in> name_words (H r1)"
  from pi have ne: "i \<noteq> cid" and pi': "P i = Some r1" by (auto split: if_splits)
  with c w obtain ids where "N word = Some ids" and "i \<in> ids"
    unfolding names_complete_def by blast
  with ne show "\<exists>ids. drop_words (name_words (H r)) cid N word = Some ids \<and> i \<in> ids"
    by (auto simp: drop_words_def)
qed

lemma keys_ok_other: "keys_ok P H n \<Longrightarrow> P cid = Some r \<Longrightarrow> \<forall>i. (P(cid := None)) i \<noteq> Some r"
  by (auto dest: keys_ok_inj)

lemma names_sound_update:
  assumes s: "names_sound P H N" and k: "keys_ok P H n" and p: "P cid = Some r"
  shows "names_sound P (H(r := c'))
           (add_words (name_words c') cid (drop_words (name_words (H r)) cid N))"
proof -
  have "names_sound ((P(cid := None))(cid \<mapsto> r)) (H(r := c'))
          (add_words (name_words c') cid (drop_words (name_words (H r)) cid N))"
    by (rule names_sound_create [OF names_sound_delete [OF s p] _ keys_ok_other [OF k p]]) simp
  with p show ?thesis by (simp add: fun_upd_idem)
qed

lemma names_complete_update:
  assumes c: "names_complete P H N" and k: "keys_ok P H n" and p: "P cid = Some r"
  shows "names_complete P (H(r := c'))
           (add_words (name_words c') cid (drop_words (name_words (H r)) cid N))"
proof -
  have "names_complete ((P(cid := None))(cid \<mapsto> r)) (H(r := c'))
          (add_words (name_words c') cid (drop_words (name_words (H r)) cid N))"
    by (rule names_complete_create [OF names_complete_delete [OF c p] _ keys_ok_other [OF k p]])
       simp
  with p show ?thesis by (simp add: fun_upd_idem)
qed

subsection \<open>Every operation keeps the invariant\<close>

lemma dicts_distinct_indexed: "dicts_distinct st \<Longrightarrow> dicts_distinct (indexed st c)"
  by (simp add: dicts_distinct_def indexed_def distinct_add_ids distinct_update)

lemma dicts_distinct_unindexed: "dicts_distinct st \<Longrightarrow> dicts_distinct (unindexed st c)"
  by (simp add: dicts_distinct_def unindexed_def distinct_drop_ids distinct_delete)

lemma dicts_distinct_contacts_update:
  "dicts_distinct st \<Longrightarrow> dicts_distinct (st\<lparr>contacts := AList.update k v (contacts st)\<rparr>)"
  by (simp add: dicts_distinct_def distinct_update)

lemma dicts_distinct_contacts_delete:
  "dicts_distinct st \<Longrightarrow> dicts_distinct (st\<lparr>contacts := AList.delete k (contacts st)\<rparr>)"
  by (simp add: dicts_distinct_def distinct_delete)

lemma name_index_indexed:
  "map_of (name_index (indexed st c)) =
     add_words (name_words c) (contact_id c) (map_of (name_index st))"
  by (simp add: indexed_def map_of_add_ids name_words_def)

lemma phone_index_indexed:
  "map_of (phone_index (indexed st c)) = (map_of (phone_index st))(phone c \<mapsto> contact_id c)"
  by (simp add: indexed_def update_conv')

lemma email_index_indexed:
  "map_of (email_index (indexed st c)) =
     (map_of (email_index st))(lower_email c \<mapsto> contact_id c)"
  by (simp add: indexed_def update_conv' lower_email_def)

lemma name_index_unindexed:
  "map_of (name_index (unindexed st c)) =
     drop_words (name_words c) (contact_id c) (map_of (name_index st))"
  by (simp add: unindexed_def map_of_drop_ids name_words_def)

lemma phone_index_unindexed:
  "map_of (phone_index (unindexed st c)) = (map_of (phone_index st))(phone c := None)"
  by (simp add: unindexed_def delete_conv')

lemma email_index_unindexed:
  "map_of (email_index (unindexed st c)) = (map_of (email_index st))(lower_email c := None)"
  by (simp add: unindexed_def delete_conv' lower_email_def)

lemmas index_views = name_index_indexed phone_index_indexed email_index_indexed
  name_index_unindexed phone_index_unindexed email_index_unindexed
  primary_def names_of_def phones_of_def emails_of_def update_conv' delete_conv'

lemma store_inv_create:
  assumes inv: "store_inv w" and fresh: "primary w uuid = None"
    and cr: "create w n p e uuid = Inr (r, w')"
  shows "store_inv w'"
proof -
  let ?c = "Contact_init n p e None uuid"
  have cid: "contact_id ?c = uuid" by (simp add: Contact_init_def)
  from cr have w': "w' = w\<lparr>heap := (heap w)(next_ref w := ?c), next_ref := Suc (next_ref w),
      store := indexed ((store w)\<lparr>contacts :=
                 AList.update uuid (next_ref w) (contacts (store w))\<rparr>) ?c\<rparr>"
    by (auto simp: create_Inr)
  from inv have k: "keys_ok (primary w) (heap w) (next_ref w)" by (simp add: store_inv_def)
  then have nr: "\<forall>i. primary w i \<noteq> Some (next_ref w)" by (simp add: keys_ok_fresh)
  have v: "primary w' = (primary w)(uuid \<mapsto> next_ref w)"
    "heap w' = (heap w)(next_ref w := ?c)" "next_ref w' = Suc (next_ref w)"
    "names_of w' = add_words (name_words ?c) uuid (names_of w)"
    "phones_of w' = (phones_of w)(phone ?c \<mapsto> uuid)"
    "emails_of w' = (emails_of w)(lower_email ?c \<mapsto> uuid)"
    by (simp_all add: w' index_views cid)
  from inv have "dicts_distinct (store w')"
    by (simp add: w' store_inv_def dicts_distinct_indexed dicts_distinct_contacts_update)
  moreover have "keys_ok (primary w') (heap w') (next_ref w')"
    unfolding v by (rule keys_ok_create [OF k cid])
  moreover have "names_sound (primary w') (heap w') (names_of w')"
  proof -
    from inv have "names_sound (primary w) (heap w) (names_of w)" by (simp add: store_inv_def)
    then show ?thesis unfolding v by (rule names_sound_create) (rule fresh nr)+
  qed
  moreover have "names_complete (primary w') (heap w') (names_of w')"
  proof -
    from inv have "names_complete (primary w) (heap w) (names_of w)" by (simp add: store_inv_def)
    then show ?thesis unfolding v by (rule names_complete_create) (rule fresh nr)+
  qed
  moreover have "ids_sound (primary w') (heap w') phone (phones_of w')"
  proof -
    from inv have "ids_sound (primary w) (heap w) phone (phones_of w)" by (simp add: store_inv_def)
    then show ?thesis unfolding v by (rule ids_sound_create) (rule fresh nr)+
  qed
  moreover have "ids_sound (primary w') (heap w') lower_email (emails_of w')"
  proof -
    from inv have "ids_sound (primary w) (heap w) lower_email (emails_of w)" by (simp add: store_inv_def)
    then show ?thesis unfolding v by (rule ids_sound_create) (rule fresh nr)+
  qed
  ultimately show ?thesis by (simp add: store_inv_def)
qed

lemma store_inv_update:
  assumes inv: "store_inv w" and up: "update_contact w cid kw = Inr (x, w')"
  shows "store_inv w'"
proof (cases "primary w cid")
  case None
  with up have "w' = w" by (simp add: primary_def update_contact_None)
  with inv show ?thesis by simp
next
  case (Some r)
  let ?c = "update_fields (heap w r) kw"
  from Some have m: "map_of (contacts (store w)) cid = Some r" by (simp add: primary_def)
  from up have w': "w' = w\<lparr>heap := (heap w)(r := ?c),
      store := indexed (unindexed (store w) (heap w r)) ?c\<rparr>"
    by (simp add: update_contact_Some [OF m])
  from inv have k: "keys_ok (primary w) (heap w) (next_ref w)" by (simp add: store_inv_def)
  with Some have old: "contact_id (heap w r) = cid" by (simp add: keys_ok_def)
  have v: "primary w' = primary w" "heap w' = (heap w)(r := ?c)" "next_ref w' = next_ref w"
    "names_of w' =
       add_words (name_words ?c) cid (drop_words (name_words (heap w r)) cid (names_of w))"
    "phones_of w' = ((phones_of w)(phone (heap w r) := None))(phone ?c \<mapsto> cid)"
    "emails_of w' = ((emails_of w)(lower_email (heap w r) := None))(lower_email ?c \<mapsto> cid)"
    by (simp_all add: w' index_views old)
  from inv have "dicts_distinct (store w')"
    by (simp add: w' store_inv_def dicts_distinct_indexed dicts_distinct_unindexed)
  moreover have "keys_ok (primary w') (heap w') (next_ref w')"
    unfolding v by (rule keys_ok_update [OF k]) simp
  moreover have "names_sound (primary w') (heap w') (names_of w')"
  proof -
    from inv have "names_sound (primary w) (heap w) (names_of w)" by (simp add: store_inv_def)
    then show ?thesis unfolding v by (rule names_sound_update) (rule k Some)+
  qed
  moreover have "names_complete (primary w') (heap w') (names_of w')"
  proof -
    from inv have "names_complete (primary w) (heap w) (names_of w)" by (simp add: store_inv_def)
    then show ?thesis unfolding v by (rule names_complete_update) (rule k Some)+
  qed
  moreover have "ids_sound (primary w') (heap w') phone (phones_of w')"
  proof -
    from inv have "ids_sound (primary w) (heap w) phone (phones_of w)" by (simp add: store_inv_def)
    then show ?thesis unfolding v by (rule ids_sound_update) (rule Some)+
  qed
  moreover have "ids_sound (primary w') (heap w') lower_email (emails_of w')"
  proof -
    from inv have "ids_sound (primary w) (heap w) lower_email (emails_of w)" by (simp add: store_inv_def)
    then show ?thesis unfolding v by (rule ids_sound_update) (rule Some)+
  qed
  ultimately show ?thesis by (simp add: store_inv_def)
qed

lemma store_inv_delete:
  assumes inv: "store_inv w" and del: "delete_contact w cid = Inr (b, w')"
  shows "store_inv w'"
proof (cases "primary w cid")
  case None
  with del have "w' = w" by (simp add: primary_def delete_contact_None)
  with inv show ?thesis by simp
next
  case (Some r)
  from Some have m: "map_of (contacts (store w)) cid = Some r" by (simp add: primary_def)
  from del have w': "w' = w\<lparr>store := (unindexed (store w) (heap w r))\<lparr>contacts :=
      AList.delete cid (contacts (store w))\<rparr>\<rparr>"
    by (simp add: delete_contact_Some [OF m])
  from inv have k: "keys_ok (primary w) (heap w) (next_ref w)" by (simp add: store_inv_def)
  with Some have old: "contact_id (heap w r) = cid" by (simp add: keys_ok_def)
  have v: "primary w' = (primary w)(cid := None)" "heap w' = heap w" "next_ref w' = next_ref w"
    "names_of w' = drop_words (name_words (heap w r)) cid (names_of w)"
    "phones_of w' = (phones_of w)(phone (heap w r) := None)"
    "emails_of w' = (emails_of w)(lower_email (heap w r) := None)"
    by (simp_all add: w' index_views old)
  from inv have "dicts_distinct (unindexed (store w) (heap w r))"
    by (simp add: store_inv_def dicts_distinct_unindexed)
  then have "dicts_distinct (store w')"
    using dicts_distinct_contacts_delete [of "unindexed (store w) (heap w r)" cid]
    by (simp add: w')
  moreover have "keys_ok (primary w') (heap w') (next_ref w')"
    unfolding v by (rule keys_ok_delete [OF k])
  moreover have "names_sound (primary w') (heap w') (names_of w')"
  proof -
    from inv have "names_sound (primary w) (heap w) (names_of w)" by (simp add: store_inv_def)
    then show ?thesis unfolding v by (rule names_sound_delete) (rule Some)+
  qed
  moreover have "names_complete (primary w') (heap w') (names_of w')"
  proof -
    from inv have "names_complete (primary w) (heap w) (names_of w)" by (simp add: store_inv_def)
    then show ?thesis unfolding v by (rule names_complete_delete) (rule Some)+
  qed
  moreover have "ids_sound (primary w') (heap w') phone (phones_of w')"
  proof -
    from inv have "ids_sound (primary w) (heap w) phone (phones_of w)" by (simp add: store_inv_def)
    then show ?thesis unfolding v by (rule ids_sound_delete) (rule Some)+
  qed
  moreover have "ids_sound (primary w') (heap w') lower_email (emails_of w')"
  proof -
    from inv have "ids_sound (primary w) (heap w) lower_email (emails_of w)" by (simp add: store_inv_def)
    then show ?thesis unfolding v by (rule ids_sound_delete) (rule Some)+
  qed
  ultimately show ?thesis by (simp add: store_inv_def)
qed

subsection \<open>Sequences of operations\<close>

lemma store_inv_empty: "store_inv empty_world"
  by (simp add: store_inv_def dicts_distinct_def keys_ok_def names_sound_def
      names_complete_def ids_sound_def primary_def names_of_def phones_of_def emails_of_def
      empty_world_def MemoryStore_init_def)

lemma step_total: "\<exists>w'. step w x = Inr w'"
proof (cases x)
  case (Create n p e uuid)
  then show ?thesis by (simp add: create_Inr and_then_def)
next
  case (Update cid kw)
  then show ?thesis
    by (cases "map_of (contacts (store w)) cid")
       (simp_all add: update_contact_None update_contact_Some and_then_def)
next
  case (Delete cid)
  then show ?thesis
    by (cases "map_of (contacts (store w)) cid")
       (simp_all add: delete_contact_None delete_contact_Some and_then_def)
qed

lemma step_CreateD:
  "step w (Create n p e uuid) = Inr w' \<Longrightarrow> \<exists>r. create w n p e uuid = Inr (r, w')"
  by (cases "create w n p e uuid") (auto simp: and_then_def)

lemma step_UpdateD:
  "step w (Update cid kw) = Inr w' \<Longrightarrow> \<exists>x. update_contact w cid kw = Inr (x, w')"
  by (cases "update_contact w cid kw") (auto simp: and_then_def)

lemma step_DeleteD:
  "step w (Delete cid) = Inr w' \<Longrightarrow> \<exists>b. delete_contact w cid = Inr (b, w')"
  by (cases "delete_contact w cid") (auto simp: and_then_def)

lemma primary_fresh: "\<not> dict_in uuid (contacts (store w)) \<Longrightarrow> primary w uuid = None"
  by (simp add: dict_in_iff primary_def)

lemma step_store_inv:
  assumes inv: "store_inv w" and fresh: "fresh_id w x" and st: "step w x = Inr w'"
  shows "store_inv w'"
proof (cases x)
  case (Create n p e uuid)
  from st [unfolded Create] obtain r where "create w n p e uuid = Inr (r, w')"
    by (blast dest: step_CreateD)
  moreover from fresh Create have "primary w uuid = None" by (simp add: primary_fresh)
  ultimately show ?thesis using inv by (auto intro: store_inv_create)
next
  case (Update cid kw)
  from st [unfolded Update] obtain y where "update_contact w cid kw = Inr (y, w')"
    by (blast dest: step_UpdateD)
  with inv show ?thesis by (rule store_inv_update)
next
  case (Delete cid)
  from st [unfolded Delete] obtain b where "delete_contact w cid = Inr (b, w')"
    by (blast dest: step_DeleteD)
  with inv show ?thesis by (rule store_inv_delete)
qed

lemma run_store_inv:
  "store_inv w \<Longrightarrow> fresh_ids w ops \<Longrightarrow> \<exists>w'. run w ops = Inr w' \<and> store_inv w'"
proof (induction ops arbitrary: w)
  case Nil
  then show ?case by simp
next
  case (Cons x ops)
  obtain w1 where s: "step w x = Inr w1" using step_total by blast
  with Cons.prems have "fresh_id w x" and f: "fresh_ids w1 ops" by simp_all
  with Cons.prems s have "store_inv w1" by (auto intro: step_store_inv)
  from Cons.IH [OF this f] s show ?case by (simp add: and_then_def)
qed

subsection \<open>Phones and emails without collisions\<close>

lemma unique_key_key_unique:
  assumes "unique_key f w"
  shows "key_unique (primary w) (heap w) f"
  unfolding key_unique_def
proof (intro allI impI)
  fix i j r s
  assume "primary w i = Some r" and "primary w j = Some s" and e: "f (heap w r) = f (heap w s)"
  then have m: "(i, r) \<in> set (contacts (store w))" "(j, s) \<in> set (contacts (store w))"
    by (auto simp: primary_def dest: map_of_SomeD)
  from assms have inj: "inj_on (\<lambda>(i, r). f (heap w r)) (set (contacts (store w)))"
    by (simp add: unique_key_def distinct_map)
  from e have "(\<lambda>(i, r). f (heap w r)) (i, r) = (\<lambda>(i, r). f (heap w r)) (j, s)" by simp
  from inj_onD [OF inj this m] show "i = j" by simp
qed

lemma create_views:
  assumes "create w n p e uuid = Inr (r, w')"
  shows "primary w' = (primary w)(uuid \<mapsto> next_ref w)"
    and "heap w' = (heap w)(next_ref w := Contact_init n p e None uuid)"
    and "phones_of w' = (phones_of w)(phone (Contact_init n p e None uuid) \<mapsto> uuid)"
    and "emails_of w' = (emails_of w)(lower_email (Contact_init n p e None uuid) \<mapsto> uuid)"
  using assms by (auto simp: create_Inr index_views Contact_init_def)

lemma update_views:
  assumes "keys_ok (primary w) (heap w) (next_ref w)" and "primary w cid = Some r"
    and "update_contact w cid kw = Inr (x, w')"
  shows "primary w' = primary w"
    and "heap w' = (heap w)(r := update_fields (heap w r) kw)"
    and "phones_of w' =
           ((phones_of w)(phone (heap w r) := None))(phone (update_fields (heap w r) kw) \<mapsto> cid)"
    and "emails_of w' =
           ((emails_of w)(lower_email (heap w r) := None))
             (lower_email (update_fields (heap w r) kw) \<mapsto> cid)"
proof -
  from assms(2) have m: "map_of (contacts (store w)) cid = Some r" by (simp add: primary_def)
  from assms(1,2) have old: "contact_id (heap w r) = cid" by (simp add: keys_ok_def)
  from assms(3) have w': "w' = w\<lparr>heap := (heap w)(r := update_fields (heap w r) kw),
      store := indexed (unindexed (store w) (heap w r)) (update_fields (heap w r) kw)\<rparr>"
    by (simp add: update_contact_Some [OF m])
  show "primary w' = primary w"
    and "heap w' = (heap w)(r := update_fields (heap w r) kw)"
    and "phones_of w' =
           ((phones_of w)(phone (heap w r) := None))(phone (update_fields (heap w r) kw) \<mapsto> cid)"
    and "emails_of w' =
           ((emails_of w)(lower_email (heap w r) := None))
             (lower_email (update_fields (heap w r) kw) \<mapsto> cid)"
    by (simp_all add: w' index_views old)
qed

lemma delete_views:
  assumes "primary w cid = Some r" and "delete_contact w cid = Inr (b, w')"
  shows "primary w' = (primary w)(cid := None)"
    and "heap w' = heap w"
    and "phones_of w' = (phones_of w)(phone (heap w r) := None)"
    and "emails_of w' = (emails_of w)(lower_email (heap w r) := None)"
proof -
  from assms(1) have m: "map_of (contacts (store w)) cid = Some r" by (simp add: primary_def)
  from assms(2) have w': "w' = w\<lparr>store := (unindexed (store w) (heap w r))\<lparr>contacts :=
      AList.delete cid (contacts (store w))\<rparr>\<rparr>"
    by (simp add: delete_contact_Some [OF m])
  show "primary w' = (primary w)(cid := None)"
    and "heap w' = heap w"
    and "phones_of w' = (phones_of w)(phone (heap w r) := None)"
    and "emails_of w' = (emails_of w)(lower_email (heap w r) := None)"
    by (simp_all add: w' index_views)
qed

lemma step_phones_complete:
  assumes inv: "store_inv w" and fresh: "fresh_id w x" and st: "step w x = Inr w'"
    and c: "ids_complete (primary w) (heap w) phone (phones_of w)"
    and u: "unique_key phone w" and u': "unique_key phone w'"
  shows "ids_complete (primary w') (heap w') phone (phones_of w')"
proof -
  from inv have k: "keys_ok (primary w) (heap w) (next_ref w)" by (simp add: store_inv_def)
  note ku = unique_key_key_unique [OF u]
  note ku' = unique_key_key_unique [OF u']
  show ?thesis
  proof (cases x)
    case (Create n p e uuid)
    from st [unfolded Create] obtain r where cr: "create w n p e uuid = Inr (r, w')"
      by (blast dest: step_CreateD)
    from fresh Create have f: "primary w uuid = None" by (simp add: primary_fresh)
    from k have nr: "\<forall>i. primary w i \<noteq> Some (next_ref w)" by (simp add: keys_ok_fresh)
    note v = create_views [OF cr]
    show ?thesis
      unfolding v(1,2,3) by (rule ids_complete_create [OF c f nr ku' [unfolded v(1,2)]])
  next
    case (Update cid kw)
    from st [unfolded Update] obtain y where up: "update_contact w cid kw = Inr (y, w')"
      by (blast dest: step_UpdateD)
    show ?thesis
    proof (cases "primary w cid")
      case None
      with up have "w' = w" by (simp add: primary_def update_contact_None)
      with c show ?thesis by simp
    next
      case (Some r)
      note v = update_views [OF k Some up]
      show ?thesis
        unfolding v(1,2,3) by (rule ids_complete_update [OF c k Some ku ku' [unfolded v(1,2)]])
    qed
  next
    case (Delete cid)
    from st [unfolded Delete] obtain b where del: "delete_contact w cid = Inr (b, w')"
      by (blast dest: step_DeleteD)
    show ?thesis
    proof (cases "primary w cid")
      case None
      with del have "w' = w" by (simp add: primary_def delete_contact_None)
      with c show ?thesis by simp
    next
      case (Some r)
      note v = delete_views [OF Some del]
      show ?thesis
        unfolding v(1,2,3) by (rule ids_complete_delete [OF c Some ku])
    qed
  qed
qed

lemma step_emails_complete:
  assumes inv: "store_inv w" and fresh: "fresh_id w x" and st: "step w x = Inr w'"
    and c: "ids_complete (primary w) (heap w) lower_email (emails_of w)"
    and u: "unique_key lower_email w" and u': "unique_key lower_email w'"
  shows "ids_complete (primary w') (heap w') lower_email (emails_of w')"
proof -
  from inv have k: "keys_ok (primary w) (heap w) (next_ref w)" by (simp add: store_inv_def)
  note ku = unique_key_key_unique [OF u]
  note ku' = unique_key_key_unique [OF u']
  show ?thesis
  proof (cases x)
    case (Create n p e uuid)
    from st [unfolded Create] obtain r where cr: "create w n p e uuid = Inr (r, w')"
      by (blast dest: step_CreateD)
    from fresh Create have f: "primary w uuid = None" by (simp add: primary_fresh)
    from k have nr: "\<forall>i. primary w i \<noteq> Some (next_ref w)" by (simp add: keys_ok_fresh)
    note v = create_views [OF cr]
    show ?thesis
      unfolding v(1,2,4) by (rule ids_complete_create [OF c f nr ku' [unfolded v(1,2)]])
  next
    case (Update cid kw)
    from st [unfolded Update] obtain y where up: "update_contact w cid kw = Inr (y, w')"
      by (blast dest: step_UpdateD)
    show ?thesis
    proof (cases "primary w cid")
      case None
      with up have "w' = w" by (simp add: primary_def update_contact_None)
      with c show ?thesis by simp
    next
      case (Some r)
      note v = update_views [OF k Some up]
      show ?thesis
        unfolding v(1,2,4) by (rule ids_complete_update [OF c k Some ku ku' [unfolded v(1,2)]])
    qed
  next
    case (Delete cid)
    from st [unfolded Delete] obtain b where del: "delete_contact w cid = Inr (b, w')"
      by (blast dest: step_DeleteD)
    show ?thesis
    proof (cases "primary w cid")
      case None
      with del have "w' = w" by (simp add: primary_def delete_contact_None)
      with c show ?thesis by simp
    next
      case (Some r)
      note v = delete_views [OF Some del]
      show ?thesis
        unfolding v(1,2,4) by (rule ids_complete_delete [OF c Some ku])
    qed
  qed
qed

lemma collision_free_head: "collision_free f w ops \<Longrightarrow> unique_key f w"
  by (cases ops) simp_all

lemma run_phones_complete:
  "store_inv w \<Longrightarrow> ids_complete (primary w) (heap w) phone (phones_of w) \<Longrightarrow>
   fresh_ids w ops \<Longrightarrow> collision_free phone w ops \<Longrightarrow> run w ops = Inr w' \<Longrightarrow>
   ids_complete (primary w') (heap w') phone (phones_of w')"
proof (induction ops arbitrary: w)
  case Nil
  then show ?case by simp
next
  case (Cons x ops)
  obtain w1 where s: "step w x = Inr w1" using step_total by blast
  with Cons.prems have fx: "fresh_id w x" and f: "fresh_ids w1 ops"
    and u: "unique_key phone w" and cf: "collision_free phone w1 ops"
    and r: "run w1 ops = Inr w'"
    by (simp_all add: and_then_def)
  from Cons.prems(1) fx s have inv1: "store_inv w1" by (rule step_store_inv)
  from Cons.prems(1) fx s Cons.prems(2) u collision_free_head [OF cf]
  have "ids_complete (primary w1) (heap w1) phone (phones_of w1)"
    by (rule step_phones_complete)
  from Cons.IH [OF inv1 this f cf r] show ?case .
qed

lemma run_emails_complete:
  "store_inv w \<Longrightarrow> ids_complete (primary w) (heap w) lower_email (emails_of w) \<Longrightarrow>
   fresh_ids w ops \<Longrightarrow> collision_free lower_email w ops \<Longrightarrow> run w ops = Inr w' \<Longrightarrow>
   ids_complete (primary w') (heap w') lower_email (emails_of w')"
proof (induction ops arbitrary: w)
  case Nil
  then show ?case by simp
next
  case (Cons x ops)
  obtain w1 where s: "step w x = Inr w1" using step_total by blast
  with Cons.prems have fx: "fresh_id w x" and f: "fresh_ids w1 ops"
    and u: "unique_key lower_email w" and cf: "collision_free lower_email w1 ops"
    and r: "run w1 ops = Inr w'"
    by (simp_all add: and_then_def)
  from Cons.prems(1) fx s have inv1: "store_inv w1" by (rule step_store_inv)
  from Cons.prems(1) fx s Cons.prems(2) u collision_free_head [OF cf]
  have "ids_complete (primary w1) (heap w1) lower_email (emails_of w1)"
    by (rule step_emails_complete)
  from Cons.IH [OF inv1 this f cf r] show ?case .
qed

subsection \<open>From the maps back to the dictionaries\<close>

lemma store_inv_ids_exist:
  assumes "store_inv w"
  shows "index_ids_exist (store w)"
proof -
  from assms have d: "dicts_distinct (store w)"
    and n: "names_sound (primary w) (heap w) (names_of w)"
    and p: "ids_sound (primary w) (heap w) phone (phones_of w)"
    and e: "ids_sound (primary w) (heap w) lower_email (emails_of w)"
    by (simp_all add: store_inv_def)
  have "dict_in i (contacts (store w))"
    if "(word, ids) \<in> set (name_index (store w))" and "i \<in> ids" for word ids i
  proof -
    from d that(1) have "names_of w word = Some ids"
      by (simp add: names_of_def dicts_distinct_def)
    with n that(2) obtain r where "primary w i = Some r"
      unfolding names_sound_def by blast
    then show ?thesis by (simp add: dict_in_iff primary_def)
  qed
  moreover have "dict_in i (contacts (store w))"
    if "(k, i) \<in> set (phone_index (store w))" for k i
  proof -
    from d that have "phones_of w k = Some i"
      by (simp add: phones_of_def dicts_distinct_def)
    with p obtain r where "primary w i = Some r"
      unfolding ids_sound_def by blast
    then show ?thesis by (simp add: dict_in_iff primary_def)
  qed
  moreover have "dict_in i (contacts (store w))"
    if "(k, i) \<in> set (email_index (store w))" for k i
  proof -
    from d that have "emails_of w k = Some i"
      by (simp add: emails_of_def dicts_distinct_def)
    with e obtain r where "primary w i = Some r"
      unfolding ids_sound_def by blast
    then show ?thesis by (simp add: dict_in_iff primary_def)
  qed
  ultimately show ?thesis
    unfolding index_ids_exist_def by blast
qed

lemma store_inv_reached_by_name:
  assumes "store_inv w"
  shows "reached_by_name w"
  unfolding reached_by_name_def
proof (intro ballI, clarify)
  fix i r word
  assume m: "(i, r) \<in> set (contacts (store w))"
    and t: "word \<in> set (str_split (str_lower (name (heap w r))))"
  from assms have d: "dicts_distinct (store w)"
    and c: "names_complete (primary w) (heap w) (names_of w)"
    by (simp_all add: store_inv_def)
  from d m have "primary w i = Some r" by (simp add: primary_def dicts_distinct_def)
  with c t obtain ids where "names_of w word = Some ids" and "i \<in> ids"
    unfolding names_complete_def name_words_def by blast
  then show "case dict_get (name_index (store w)) word of None \<Rightarrow> False | Some ids \<Rightarrow> i \<in> ids"
    by (simp add: dict_get_def names_of_def)
qed

lemma complete_reached_by_phone:
  assumes "store_inv w" and c: "ids_complete (primary w) (heap w) phone (phones_of w)"
  shows "reached_by_phone w"
  unfolding reached_by_phone_def
proof (intro ballI, clarify)
  fix i r assume m: "(i, r) \<in> set (contacts (store w))"
  from assms(1) have "dicts_distinct (store w)" by (simp add: store_inv_def)
  with m have "primary w i = Some r" by (simp add: primary_def dicts_distinct_def)
  with c show "dict_get (phone_index (store w)) (phone (heap w r)) = Some i"
    by (simp add: ids_complete_def dict_get_def phones_of_def)
qed

lemma complete_reached_by_email:
  assumes "store_inv w" and c: "ids_complete (primary w) (heap w) lower_email (emails_of w)"
  shows "reached_by_email w"
  unfolding reached_by_email_def
proof (intro ballI, clarify)
  fix i r assume m: "(i, r) \<in> set (contacts (store w))"
  from assms(1) have "dicts_distinct (store w)" by (simp add: store_inv_def)
  with m have "primary w i = Some r" by (simp add: primary_def dicts_distinct_def)
  with c show "dict_get (email_index (store w)) (str_lower (email (heap w r))) = Some i"
    by (simp add: ids_complete_def dict_get_def emails_of_def lower_email_def)
qed

lemma complete_empty:
  "ids_complete (primary empty_world) (heap empty_world) f I"
  by (simp add: ids_complete_def primary_def empty_world_def MemoryStore_init_def)

lemma fresh_ids_take: "fresh_ids w ops \<Longrightarrow> fresh_ids w (take n ops)"
proof (induction ops arbitrary: w n)
  case Nil
  then show ?case by simp
next
  case (Cons x ops)
  then show ?case by (cases n) (auto split: sum.splits)
qed

text \<open>
  C1, as stated, fails: after two creates with the same phone string the phone index
  holds one entry for that string, with the id of the second contact, and the first
  contact is not reached through its phone.
\<close>

theorem shared_phone_counterexample:
  "fresh_ids empty_world shared_phone_ops \<and>
   (\<exists>w. run empty_world shared_phone_ops = Inr w \<and>
        contacts (store w) = [(''u1'', 0), (''u2'', 1)] \<and>
        phone (heap w 0) = ''1234567890'' \<and>
        phone_index (store w) = [(''1234567890'', ''u2'')] \<and>
        \<not> reached_by_phone w \<and> \<not> index_invariant w)"
  by (simp add: shared_phone_ops_def run_simps reached_by_phone_def index_invariant_def)

text \<open>
  C1, amended. For every sequence of create, update and delete operations from the empty
  store in which each create is given an id that is not in the store, and after each
  operation of the sequence (every prefix \<open>take n ops\<close>): no operation raises, every
  id in an entry of the name, phone or email index is a key of the primary map, and
  every stored Contact is reached through each of its current lowercased name tokens.
  If moreover no two stored contacts have had the same phone string up to that point,
  every stored Contact is reached through its phone string; likewise for the lowercased
  email.
\<close>

theorem index_invariant_sequences:
  assumes fresh: "fresh_ids empty_world ops"
  shows "\<exists>w. run empty_world (take n ops) = Inr w \<and>
             index_ids_exist (store w) \<and> reached_by_name w \<and>
             (collision_free phone empty_world (take n ops) \<longrightarrow> reached_by_phone w) \<and>
             (collision_free lower_email empty_world (take n ops) \<longrightarrow> reached_by_email w)"
proof -
  from fresh have f: "fresh_ids empty_world (take n ops)" by (rule fresh_ids_take)
  from run_store_inv [OF store_inv_empty f] obtain w
    where r: "run empty_world (take n ops) = Inr w" and inv: "store_inv w" by blast
  have "reached_by_phone w" if "collision_free phone empty_world (take n ops)"
    using run_phones_complete [OF store_inv_empty complete_empty f that r] inv
    by (simp add: complete_reached_by_phone)
  moreover have "reached_by_email w" if "collision_free lower_email empty_world (take n ops)"
    using run_emails_complete [OF store_inv_empty complete_empty f that r] inv
    by (simp add: complete_reached_by_email)
  ultimately show ?thesis
    using r inv by (auto simp: store_inv_ids_exist store_inv_reached_by_name)
qed

theorem index_invariant_sequences_witness:
  "fresh_ids empty_world test_ops \<and>
   collision_free phone empty_world test_ops \<and>
   collision_free lower_email empty_world test_ops \<and>
   (\<exists>w. run empty_world test_ops = Inr w \<and> index_ids_exist (store w) \<and>
        reached_by_name w \<and> reached_by_phone w \<and> reached_by_email w)"
proof -
  have t: "take 4 test_ops = test_ops" by (simp add: test_ops_def)
  from index_invariant_sequences [OF fresh_test_ops, of 4] phones_test_ops emails_test_ops
    fresh_test_ops
  show ?thesis unfolding t by blast
qed

section \<open>What a search matches\<close>

lemma lower_char_idem: "lower_char (lower_char c) = lower_char c"
  by (simp add: lower_char_def)

lemma str_lower_idem: "str_lower (str_lower s) = str_lower s"
  by (simp add: str_lower_def lower_char_idem)

lemma fold_name_matches:
  "i \<in> fold (\<lambda>(word, contact_ids) m. if P word then m \<union> contact_ids else m) xs A \<longleftrightarrow>
     i \<in> A \<or> (\<exists>word ids. (word, ids) \<in> set xs \<and> P word \<and> i \<in> ids)"
proof (induction xs arbitrary: A)
  case Nil
  show ?case by simp
next
  case (Cons x xs)
  obtain word ids where x: "x = (word, ids)" by (cases x)
  show ?case
  proof (cases "P word")
    case True
    then show ?thesis unfolding x by (simp add: Cons.IH) blast
  next
    case False
    then show ?thesis unfolding x by (simp add: Cons.IH) blast
  qed
qed

lemma fold_id_matches:
  "i \<in> fold (\<lambda>(k, cid) m. if P k then insert cid m else m) xs A \<longleftrightarrow>
     i \<in> A \<or> (\<exists>k. (k, i) \<in> set xs \<and> P k)"
proof (induction xs arbitrary: A)
  case Nil
  show ?case by simp
next
  case (Cons x xs)
  obtain k j where x: "x = (k, j)" by (cases x)
  show ?case
  proof (cases "P k")
    case True
    then show ?thesis unfolding x by (simp add: Cons.IH) blast
  next
    case False
    then show ?thesis unfolding x by (simp add: Cons.IH) blast
  qed
qed

lemma matching_ids_iff:
  "i \<in> matching_ids st q \<longleftrightarrow>
     (\<exists>word ids. (word, ids) \<in> set (name_index st) \<and> str_contains q (str_lower word) \<and> i \<in> ids) \<or>
     (\<exists>k. (k, i) \<in> set (phone_index st) \<and> str_contains q k) \<or>
     (\<exists>k. (k, i) \<in> set (email_index st) \<and> str_contains q (str_lower k))"
  unfolding matching_ids_def Let_def fold_id_matches fold_name_matches by simp

lemma distinct_one: "distinct xs \<Longrightarrow> set xs = {a} \<Longrightarrow> xs = [a]"
proof (cases xs)
  case Nil
  assume "set xs = {a}" with Nil show ?thesis by simp
next
  case (Cons x ys)
  assume d: "distinct xs" and s: "set xs = {a}"
  from s Cons have xa: "x = a" and sub: "set ys \<subseteq> {a}" by auto
  from d Cons have nin: "x \<notin> set ys" by simp
  have "ys = []"
  proof (cases ys)
    case Nil
    then show ?thesis .
  next
    case (Cons y zs)
    with sub have "y = a" by simp
    with Cons nin xa show ?thesis by simp
  qed
  with xa Cons show ?thesis by simp
qed

lemma distinct_two:
  assumes d: "distinct xs" and s: "set xs = {a, b}" and ne: "a \<noteq> b"
  shows "xs = [a, b] \<or> xs = [b, a]"
proof (cases xs)
  case Nil
  with s show ?thesis by simp
next
  case (Cons x ys)
  from d Cons have dy: "distinct ys" and xy: "x \<notin> set ys" by simp_all
  from s Cons have "x = a \<or> x = b" by auto
  then show ?thesis
  proof
    assume "x = a"
    with s Cons xy ne have "set ys = {b}" by auto
    with dy have "ys = [b]" by (rule distinct_one)
    with \<open>x = a\<close> Cons show ?thesis by simp
  next
    assume "x = b"
    with s Cons xy ne have "set ys = {a}" by auto
    with dy have "ys = [a]" by (rule distinct_one)
    with \<open>x = b\<close> Cons show ?thesis by simp
  qed
qed

lemma split_bob: "str_split (str_lower ''Bob Smithson'') = [''bob'', ''smithson'']"
  by (simp add: str_lower_def lower_char_def str_split_def isspace_def)

lemma split_carol: "str_split (str_lower ''Carol Jones'') = [''carol'', ''jones'']"
  by (simp add: str_lower_def lower_char_def str_split_def isspace_def)

lemma strip_lower_smith: "str_strip (str_lower ''smith'') = ''smith''"
  by (simp add: str_lower_def lower_char_def str_strip_def isspace_def)

lemma strip_lower_jones: "str_strip (str_lower ''jones'') = ''jones''"
  by (simp add: str_lower_def lower_char_def str_strip_def isspace_def)

lemma lower_smith: "str_lower ''smith'' = ''smith''"
  by (simp add: str_lower_def lower_char_def)

lemma lower_smithson: "str_lower ''smithson'' = ''smithson''"
  by (simp add: str_lower_def lower_char_def)

lemma lower_jones: "str_lower ''jones'' = ''jones''"
  by (simp add: str_lower_def lower_char_def)

lemma lower_carol: "str_lower ''carol'' = ''carol''"
  by (simp add: str_lower_def lower_char_def)

text \<open>An id that a search matches is the id of a stored contact.\<close>

lemma matching_ids_stored:
  assumes inv: "store_inv w" and i: "i \<in> matching_ids (store w) q"
  shows "primary w i \<noteq> None"
proof -
  from inv have "index_ids_exist (store w)" by (rule store_inv_ids_exist)
  with i have "dict_in i (contacts (store w))"
    unfolding matching_ids_iff index_ids_exist_def by blast
  then show ?thesis by (simp add: dict_in_iff primary_def)
qed

text \<open>A stored contact is matched by a query that one of its name words contains.\<close>

lemma matching_ids_name:
  assumes inv: "store_inv w" and p: "primary w i = Some r"
    and t: "word \<in> name_words (heap w r)" and c: "str_contains q (str_lower word)"
  shows "i \<in> matching_ids (store w) q"
proof -
  from inv have "names_complete (primary w) (heap w) (names_of w)" by (simp add: store_inv_def)
  with p t obtain ids where "names_of w word = Some ids" and ii: "i \<in> ids"
    unfolding names_complete_def by blast
  then have "(word, ids) \<in> set (name_index (store w))"
    by (auto simp: names_of_def dest: map_of_SomeD)
  with c ii show ?thesis unfolding matching_ids_iff by blast
qed

lemma stored_entry:
  assumes inv: "store_inv w" and m: "(i, r) \<in> set (contacts (store w))"
  shows "primary w i = Some r"
proof -
  from inv have "dicts_distinct (store w)" by (simp add: store_inv_def)
  with m show ?thesis by (simp add: primary_def dicts_distinct_def)
qed

lemma stored_ref:
  assumes inv: "store_inv w" and r: "r \<in> set (get_all_contacts w)"
  shows "primary w (contact_id (heap w r)) = Some r"
proof -
  from r obtain i where "(i, r) \<in> set (contacts (store w))"
    by (auto simp: get_all_contacts_def)
  with inv have p: "primary w i = Some r" by (rule stored_entry)
  moreover from inv have "keys_ok (primary w) (heap w) (next_ref w)" by (simp add: store_inv_def)
  ultimately have "contact_id (heap w r) = i" by (simp add: keys_ok_def)
  with p show ?thesis by simp
qed

lemma stored_in_list:
  assumes "primary w i = Some r"
  shows "r \<in> set (get_all_contacts w)"
proof -
  from assms have "(i, r) \<in> set (contacts (store w))"
    by (auto simp: primary_def dest: map_of_SomeD)
  then show ?thesis by (force simp: get_all_contacts_def)
qed

text \<open>
  Every id that a search matches belongs to a stored contact one of whose current
  fields contains the query.
\<close>

lemma matching_ids_sound:
  assumes inv: "store_inv w" and i: "i \<in> matching_ids (store w) q"
  shows "\<exists>r. primary w i = Some r \<and>
           ((\<exists>word \<in> name_words (heap w r). str_contains q (str_lower word)) \<or>
            str_contains q (phone (heap w r)) \<or>
            str_contains q (str_lower (email (heap w r))))"
proof -
  from inv have d: "dicts_distinct (store w)"
    and n: "names_sound (primary w) (heap w) (names_of w)"
    and p: "ids_sound (primary w) (heap w) phone (phones_of w)"
    and e: "ids_sound (primary w) (heap w) lower_email (emails_of w)"
    by (simp_all add: store_inv_def)
  from i consider
    (name) word ids where "(word, ids) \<in> set (name_index (store w))"
      "str_contains q (str_lower word)" "i \<in> ids"
    | (phone) k where "(k, i) \<in> set (phone_index (store w))" "str_contains q k"
    | (email) k where "(k, i) \<in> set (email_index (store w))" "str_contains q (str_lower k)"
    unfolding matching_ids_iff by blast
  then show ?thesis
  proof cases
    case name
    from d name(1) have "names_of w word = Some ids"
      by (simp add: names_of_def dicts_distinct_def)
    with n name(3) obtain r where "primary w i = Some r" "word \<in> name_words (heap w r)"
      unfolding names_sound_def by blast
    with name(2) show ?thesis by blast
  next
    case phone
    from d phone(1) have "phones_of w k = Some i"
      by (simp add: phones_of_def dicts_distinct_def)
    with p obtain r where "primary w i = Some r" "phone (heap w r) = k"
      unfolding ids_sound_def by blast
    with phone(2) show ?thesis by blast
  next
    case email
    from d email(1) have "emails_of w k = Some i"
      by (simp add: emails_of_def dicts_distinct_def)
    with e obtain r where "primary w i = Some r" "lower_email (heap w r) = k"
      unfolding ids_sound_def by blast
    with email(2) have "primary w i = Some r" "str_contains q (str_lower (email (heap w r)))"
      by (auto simp: lower_email_def str_lower_idem)
    then show ?thesis by blast
  qed
qed

text \<open>
  The containment test of the search, \<open>query_lower in key\<close>, holds exactly when the
  query is a contiguous sublist of the key, at any position of it.
\<close>

lemma str_contains_sublist: "str_contains sub s \<longleftrightarrow> sublist sub s"
  by (induction s) (simp_all add: sublist_Cons_right)

text \<open>The words of a lowercased name are in lower case.\<close>

lemma split_from_chars: "word \<in> set (split_from cur s) \<Longrightarrow> set word \<subseteq> set cur \<union> set s"
  by (induction cur s rule: split_from.induct) (auto split: if_splits)

lemma str_split_lower:
  assumes "word \<in> set (str_split (str_lower s))"
  shows "str_lower word = word"
proof -
  from assms have "set word \<subseteq> set (str_lower s)"
    using split_from_chars [of word "[]" "str_lower s"] by (simp add: str_split_def)
  then have "\<forall>c \<in> set word. lower_char c = c"
    by (auto simp: str_lower_def lower_char_idem)
  then show ?thesis by (simp add: str_lower_def map_idI)
qed

text \<open>The list comprehension of the search: one contact for each visited id that is a key.\<close>

lemma set_map_filter:
  "r \<in> set (List.map_filter m ids) \<longleftrightarrow> (\<exists>i \<in> set ids. m i = Some r)"
  by (induction ids) (auto simp: map_filter_simps split: option.splits)

lemma distinct_map_filter:
  assumes "distinct ids" and inj: "\<And>i j r. m i = Some r \<Longrightarrow> m j = Some r \<Longrightarrow> i = j"
  shows "distinct (List.map_filter m ids)"
  using assms(1)
proof (induction ids)
  case Nil
  show ?case by (simp add: map_filter_simps)
next
  case (Cons i ids)
  show ?case
  proof (cases "m i")
    case None
    with Cons show ?thesis by (simp add: map_filter_simps)
  next
    case (Some r)
    have "r \<notin> set (List.map_filter m ids)"
    proof
      assume "r \<in> set (List.map_filter m ids)"
      then obtain j where "j \<in> set ids" and "m j = Some r" by (auto simp: set_map_filter)
      with Some inj have "i = j" by blast
      with \<open>j \<in> set ids\<close> Cons.prems show False by simp
    qed
    with Some Cons show ?thesis by (simp add: map_filter_simps)
  qed
qed

text \<open>
  C3. Search is by substring containment, not by whole-token or prefix match. In every
  store reached from the empty store, for a query that is not blank and in whichever order
  the set of matching ids is visited, the search returns a list of stored contacts, each
  at most once, such that: every returned contact has a lowercased name word, a phone
  string or a lowercased email of which the stripped lowercased query is a contiguous
  sublist; every stored contact with a lowercased name word of which the query is a
  contiguous sublist, at any position, is returned; for every key of the phone index and
  of the email index of which the query is a contiguous sublist, the contact whose id the
  index holds for that key is returned. In particular, when the store holds exactly two
  contacts, one named "Alice Smith" and one named "Bob Smithson", searching for "smith"
  returns both, each exactly once, whatever their phones, emails and ids are.
\<close>

theorem search_by_substring:
  assumes fresh: "fresh_ids empty_world ops" and run: "run empty_world ops = Inr w"
    and q: "query_lower = str_strip (str_lower query)" and nb: "query_lower \<noteq> []"
    and v: "visits visit (matching_ids (store w) query_lower)"
  shows "\<exists>rs. search_contacts w visit query = Inr rs \<and> distinct rs \<and>
           set rs \<subseteq> set (get_all_contacts w) \<and>
           (\<forall>r \<in> set rs.
              (\<exists>word \<in> set (str_split (str_lower (name (heap w r)))). sublist query_lower word) \<or>
              sublist query_lower (phone (heap w r)) \<or>
              sublist query_lower (str_lower (email (heap w r)))) \<and>
           (\<forall>r \<in> set (get_all_contacts w).
              (\<exists>word \<in> set (str_split (str_lower (name (heap w r)))). sublist query_lower word) \<longrightarrow>
              r \<in> set rs) \<and>
           (\<forall>k i. (k, i) \<in> set (phone_index (store w)) \<and> sublist query_lower k \<longrightarrow>
              (\<exists>r \<in> set rs. contact_id (heap w r) = i)) \<and>
           (\<forall>k i. (k, i) \<in> set (email_index (store w)) \<and> sublist query_lower (str_lower k) \<longrightarrow>
              (\<exists>r \<in> set rs. contact_id (heap w r) = i)) \<and>
           (\<forall>r1 r2. query = ''smith'' \<and> set (get_all_contacts w) = {r1, r2} \<and>
              name (heap w r1) = ''Alice Smith'' \<and> name (heap w r2) = ''Bob Smithson'' \<longrightarrow>
              set rs = {r1, r2})"
proof -
  from run_store_inv [OF store_inv_empty fresh] run have inv: "store_inv w" by simp
  then have k: "keys_ok (primary w) (heap w) (next_ref w)" by (simp add: store_inv_def)
  let ?M = "matching_ids (store w) query_lower"
  let ?rs = "List.map_filter (primary w) (visit ?M)"
  from v have d: "distinct (visit ?M)" and s: "set (visit ?M) = ?M"
    by (simp_all add: visits_def)
  have res: "search_contacts w visit query = Inr ?rs"
    using q nb by (simp add: search_contacts_Inr primary_def)
  have dist: "distinct ?rs"
    using d by (rule distinct_map_filter) (rule keys_ok_inj [OF k])
  have mem: "r \<in> set ?rs \<longleftrightarrow> (\<exists>i \<in> ?M. primary w i = Some r)" for r
    by (simp add: set_map_filter s)
  have sub: "set ?rs \<subseteq> set (get_all_contacts w)"
    by (auto simp: mem intro: stored_in_list)
  have sound:
    "(\<exists>word \<in> set (str_split (str_lower (name (heap w r)))). sublist query_lower word) \<or>
     sublist query_lower (phone (heap w r)) \<or>
     sublist query_lower (str_lower (email (heap w r)))"
    if "r \<in> set ?rs" for r
  proof -
    from that obtain i where i: "i \<in> ?M" and p: "primary w i = Some r" by (auto simp: mem)
    from matching_ids_sound [OF inv i] p
    have "(\<exists>word \<in> name_words (heap w r). str_contains query_lower (str_lower word)) \<or>
          str_contains query_lower (phone (heap w r)) \<or>
          str_contains query_lower (str_lower (email (heap w r)))"
      by auto
    then show ?thesis
      by (auto simp: name_words_def str_contains_sublist str_split_lower)
  qed
  have complete: "r \<in> set ?rs"
    if r: "r \<in> set (get_all_contacts w)"
      and t: "word \<in> set (str_split (str_lower (name (heap w r))))"
      and c: "sublist query_lower word" for r word
  proof -
    from inv r have p: "primary w (contact_id (heap w r)) = Some r" by (rule stored_ref)
    from t c have "str_contains query_lower (str_lower word)"
      by (simp add: str_contains_sublist str_split_lower)
    with t have "contact_id (heap w r) \<in> ?M"
      by (intro matching_ids_name [OF inv p]) (simp_all add: name_words_def)
    with p show ?thesis unfolding mem by blast
  qed
  have matched: "\<exists>r \<in> set ?rs. contact_id (heap w r) = i" if i: "i \<in> ?M" for i
  proof -
    from matching_ids_stored [OF inv i] obtain r where p: "primary w i = Some r" by blast
    with i have "r \<in> set ?rs" unfolding mem by blast
    moreover from k p have "contact_id (heap w r) = i" by (simp add: keys_ok_def)
    ultimately show ?thesis by blast
  qed
  have by_phone: "\<exists>r \<in> set ?rs. contact_id (heap w r) = i"
    if "(k, i) \<in> set (phone_index (store w))" and "sublist query_lower k" for k i
  proof (rule matched)
    from that show "i \<in> ?M" unfolding matching_ids_iff str_contains_sublist by blast
  qed
  have by_email: "\<exists>r \<in> set ?rs. contact_id (heap w r) = i"
    if "(k, i) \<in> set (email_index (store w))" and "sublist query_lower (str_lower k)" for k i
  proof (rule matched)
    from that show "i \<in> ?M" unfolding matching_ids_iff str_contains_sublist by blast
  qed
  have both: "set ?rs = {r1, r2}"
    if "query = ''smith''" and two: "set (get_all_contacts w) = {r1, r2}"
      and n1: "name (heap w r1) = ''Alice Smith''" and n2: "name (heap w r2) = ''Bob Smithson''"
    for r1 r2
  proof -
    from that(1) q have ql: "query_lower = ''smith''" by (simp add: strip_lower_smith)
    have s1: "sublist query_lower ''smith''" and s2: "sublist query_lower ''smithson''"
      unfolding ql by (simp_all add: str_contains_sublist [symmetric])
    have "r1 \<in> set ?rs"
    proof (rule complete [of r1 "''smith''"])
      show "r1 \<in> set (get_all_contacts w)" using two by simp
      show "''smith'' \<in> set (str_split (str_lower (name (heap w r1))))"
        by (simp add: n1 split_alice)
      show "sublist query_lower ''smith''" by (rule s1)
    qed
    moreover have "r2 \<in> set ?rs"
    proof (rule complete [of r2 "''smithson''"])
      show "r2 \<in> set (get_all_contacts w)" using two by simp
      show "''smithson'' \<in> set (str_split (str_lower (name (heap w r2))))"
        by (simp add: n2 split_bob)
      show "sublist query_lower ''smithson''" by (rule s2)
    qed
    ultimately have "r1 \<in> set ?rs" and "r2 \<in> set ?rs" .
    with sub two show ?thesis by blast
  qed
  from res dist sub sound complete by_phone by_email both show ?thesis by blast
qed

text \<open>
  The store with "Alice Smith" and "Bob Smithson": "smith" returns both; so does " MITH ",
  which is a prefix of no name word, phone or email; "bob" returns only "Bob Smithson".
\<close>

theorem search_by_substring_witness:
  "fresh_ids empty_world smiths_ops \<and>
   run empty_world smiths_ops = Inr smiths_world \<and>
   set (get_all_contacts smiths_world) = {0, 1} \<and>
   name (heap smiths_world 0) = ''Alice Smith'' \<and>
   name (heap smiths_world 1) = ''Bob Smithson'' \<and>
   ''smith'' = str_strip (str_lower ''smith'') \<and>
   visits (\<lambda>S. [''u2'', ''u1'']) (matching_ids (store smiths_world) ''smith'') \<and>
   (\<exists>rs. search_contacts smiths_world (\<lambda>S. [''u2'', ''u1'']) ''smith'' = Inr rs \<and>
         distinct rs \<and> set rs = {0, 1}) \<and>
   ''mith'' = str_strip (str_lower '' MITH '') \<and>
   visits (\<lambda>S. [''u2'', ''u1'']) (matching_ids (store smiths_world) ''mith'') \<and>
   (\<exists>rs. search_contacts smiths_world (\<lambda>S. [''u2'', ''u1'']) '' MITH '' = Inr rs \<and>
         distinct rs \<and> set rs = {0, 1}) \<and>
   ''bob'' = str_strip (str_lower ''bob'') \<and>
   visits (\<lambda>S. [''u2'']) (matching_ids (store smiths_world) ''bob'') \<and>
   search_contacts smiths_world (\<lambda>S. [''u2'']) ''bob'' = Inr [1]"
proof -
  let ?V = "\<lambda>S::string set. [''u2'', ''u1'']"
  let ?B = "\<lambda>S::string set. [''u2'']"
  let ?all = "set (get_all_contacts smiths_world)"
  let ?words = "\<lambda>r. set (str_split (str_lower (name (heap smiths_world r))))"
  have two: "?all = {0, 1}"
    and n1: "name (heap smiths_world 0) = ''Alice Smith''"
    and n2: "name (heap smiths_world 1) = ''Bob Smithson''"
    and p1: "phone (heap smiths_world 0) = ''1234567890''"
    and e1: "email (heap smiths_world 0) = ''alice@example.com''"
    by (auto simp: smiths_world_def get_all_contacts_def alice_def)
  from two have in0: "0 \<in> ?all" and in1: "1 \<in> ?all" by simp_all
  have qs: "''smith'' = str_strip (str_lower ''smith'')"
    and qm: "''mith'' = str_strip (str_lower '' MITH '')"
    and qb: "''bob'' = str_strip (str_lower ''bob'')"
    by (simp_all add: str_lower_def lower_char_def str_strip_def isspace_def)
  have nbs: "''smith'' \<noteq> []" and nbm: "''mith'' \<noteq> []" and nbb: "''bob'' \<noteq> []"
    by simp_all
  have vs: "visits ?V (matching_ids (store smiths_world) ''smith'')"
    and vm: "visits ?V (matching_ids (store smiths_world) ''mith'')"
    and vb: "visits ?B (matching_ids (store smiths_world) ''bob'')"
    by (auto simp: smiths_world_def matching_ids_def visits_def str_lower_def lower_char_def)
  have w0: "?words 0 = {''alice'', ''smith''}" and w1: "?words 1 = {''bob'', ''smithson''}"
    unfolding n1 n2 split_alice split_bob by simp_all
  have smith: "\<exists>rs. search_contacts smiths_world ?V ''smith'' = Inr rs \<and>
      distinct rs \<and> set rs = {0, 1}"
  proof -
    from search_by_substring [OF fresh_smiths run_smiths qs nbs vs] obtain rs
      where r: "search_contacts smiths_world ?V ''smith'' = Inr rs" and d: "distinct rs"
        and b: "\<forall>r1 r2. ''smith'' = ''smith'' \<and> ?all = {r1, r2} \<and>
                  name (heap smiths_world r1) = ''Alice Smith'' \<and>
                  name (heap smiths_world r2) = ''Bob Smithson'' \<longrightarrow> set rs = {r1, r2}"
      by (elim exE conjE) (rule that)
    from b two n1 n2 have "set rs = {0, 1}" by blast
    with r d show ?thesis by blast
  qed
  have i1: "sublist ''mith'' ''smith''" and i2: "sublist ''mith'' ''smithson''"
    and i3: "sublist ''bob'' ''bob''"
    by (simp_all add: str_contains_sublist [symmetric])
  have mith: "\<exists>rs. search_contacts smiths_world ?V '' MITH '' = Inr rs \<and>
      distinct rs \<and> set rs = {0, 1}"
  proof -
    from search_by_substring [OF fresh_smiths run_smiths qm nbm vm] obtain rs
      where r: "search_contacts smiths_world ?V '' MITH '' = Inr rs" and d: "distinct rs"
        and sub: "set rs \<subseteq> ?all"
        and c: "\<forall>r \<in> ?all. (\<exists>word \<in> ?words r. sublist ''mith'' word) \<longrightarrow> r \<in> set rs"
      by (elim exE conjE) (rule that)
    from i1 have "\<exists>word \<in> ?words 0. sublist ''mith'' word" unfolding w0 by blast
    with c in0 have m0: "0 \<in> set rs" by blast
    from i2 have "\<exists>word \<in> ?words 1. sublist ''mith'' word" unfolding w1 by blast
    with c in1 have m1: "1 \<in> set rs" by blast
    from sub m0 m1 have "set rs = {0, 1}" unfolding two by blast
    with r d show ?thesis by blast
  qed
  have k1: "\<not> sublist ''bob'' ''alice''" and k2: "\<not> sublist ''bob'' ''smith''"
    and k3: "\<not> sublist ''bob'' ''1234567890''"
    and k4: "\<not> sublist ''bob'' ''alice@example.com''"
    by (simp_all add: str_contains_sublist [symmetric])
  have bob: "search_contacts smiths_world ?B ''bob'' = Inr [1]"
  proof -
    from search_by_substring [OF fresh_smiths run_smiths qb nbb vb] obtain rs
      where r: "search_contacts smiths_world ?B ''bob'' = Inr rs" and d: "distinct rs"
        and sub: "set rs \<subseteq> ?all"
        and s: "\<forall>r \<in> set rs.
                  (\<exists>word \<in> ?words r. sublist ''bob'' word) \<or>
                  sublist ''bob'' (phone (heap smiths_world r)) \<or>
                  sublist ''bob'' (str_lower (email (heap smiths_world r)))"
        and c: "\<forall>r \<in> ?all. (\<exists>word \<in> ?words r. sublist ''bob'' word) \<longrightarrow> r \<in> set rs"
      by (elim exE conjE) (rule that)
    from i3 have "\<exists>word \<in> ?words 1. sublist ''bob'' word" unfolding w1 by blast
    with c in1 have m1: "1 \<in> set rs" by blast
    have m0: "0 \<notin> set rs"
    proof
      assume "0 \<in> set rs"
      with s have "(\<exists>word \<in> ?words 0. sublist ''bob'' word) \<or>
                  sublist ''bob'' (phone (heap smiths_world 0)) \<or>
                  sublist ''bob'' (str_lower (email (heap smiths_world 0)))"
        by blast
      then have "(\<exists>word \<in> {''alice'', ''smith''}. sublist ''bob'' word) \<or>
                  sublist ''bob'' ''1234567890'' \<or> sublist ''bob'' ''alice@example.com''"
        unfolding w0 p1 e1 lower_alice_email .
      with k1 k2 k3 k4 show False by blast
    qed
    from sub m0 m1 have "set rs = {1}" unfolding two by blast
    with d have "rs = [1]" by (rule distinct_one)
    with r show ?thesis by simp
  qed
  show ?thesis
    by (intro conjI) (fact fresh_smiths run_smiths two n1 n2 qs vs smith qm vm mith qb vb bob)+
qed

text \<open>
  C2, as stated, fails: the search also looks at the email index. A contact created as
  "Alice Smith" with the email alice.smith@example.com is still returned by a search for
  "smith" after its name has been updated to "Carol Jones".
\<close>

theorem rename_email_counterexample:
  "run empty_world asmith_ops = Inr asmith_world \<and>
   get_all_contacts asmith_world = [0] \<and>
   name (heap asmith_world 0) = ''Carol Jones'' \<and>
   email (heap asmith_world 0) = ''alice.smith@example.com'' \<and>
   matching_ids (store asmith_world) ''smith'' = {''u1''} \<and>
   visits (\<lambda>S. [''u1'']) (matching_ids (store asmith_world) ''smith'') \<and>
   search_contacts asmith_world (\<lambda>S. [''u1'']) ''smith'' = Inr [0]"
  by (simp add: run_asmith)
     (simp add: asmith_world_def get_all_contacts_def matching_ids_def visits_def
        search_contacts_Inr str_lower_def lower_char_def str_strip_def isspace_def
        List.map_filter_def)

text \<open>
  C2, amended. In every store reached from the empty store whose only contact is named
  "Alice Smith": an update of that contact's name to "Carol Jones" succeeds and returns
  the contact; afterwards a search for "jones" returns exactly that contact, and a
  search for "smith" returns the empty list provided "smith" is a substring neither of
  the contact's phone nor of its lowercased email.
\<close>

theorem rename_search:
  assumes fresh: "fresh_ids empty_world ops" and run: "run empty_world ops = Inr w"
    and one: "get_all_contacts w = [r]" and n: "name (heap w r) = ''Alice Smith''"
    and up: "update_contact w (contact_id (heap w r)) [(''name'', ''Carol Jones'')] = Inr (x, w')"
  shows "x = Some r \<and> get_all_contacts w' = [r] \<and> name (heap w' r) = ''Carol Jones'' \<and>
         (\<not> str_contains ''smith'' (phone (heap w r)) \<longrightarrow>
          \<not> str_contains ''smith'' (str_lower (email (heap w r))) \<longrightarrow>
          visits visit (matching_ids (store w') ''smith'') \<longrightarrow>
          search_contacts w' visit ''smith'' = Inr []) \<and>
         (visits visit (matching_ids (store w') ''jones'') \<longrightarrow>
          search_contacts w' visit ''jones'' = Inr [r])"
proof -
  let ?u = "contact_id (heap w r)"
  let ?c = "update_fields (heap w r) [(''name'', ''Carol Jones'')]"
  from run_store_inv [OF store_inv_empty fresh] run have inv: "store_inv w" by simp
  from one have "r \<in> set (get_all_contacts w)" by simp
  with inv have p: "primary w ?u = Some r" by (rule stored_ref)
  then have m: "map_of (contacts (store w)) ?u = Some r" by (simp add: primary_def)
  from up have x: "x = Some r"
    and w': "w' = w\<lparr>heap := (heap w)(r := ?c),
                    store := indexed (unindexed (store w) (heap w r)) ?c\<rparr>"
    by (simp_all add: update_contact_Some [OF m])
  from inv up have inv': "store_inv w'" by (rule store_inv_update)
  have h: "heap w' r = (heap w r)\<lparr>name := ''Carol Jones''\<rparr>"
    by (simp add: w' hasattr_def setattr_def)
  have all': "get_all_contacts w' = [r]"
    using one by (simp add: w' get_all_contacts_def)
  have p': "primary w' ?u = Some r"
    using p by (simp add: w' primary_def)
  have only: "r' = r" if "primary w' i = Some r'" for i r'
    using stored_in_list [OF that] all' by simp
  have words: "name_words ((heap w r)\<lparr>name := ''Carol Jones''\<rparr>) = {''carol'', ''jones''}"
    by (simp add: name_words_def split_carol)
  have smith: "search_contacts w' visit ''smith'' = Inr []"
    if np: "\<not> str_contains ''smith'' (phone (heap w r))"
      and ne: "\<not> str_contains ''smith'' (str_lower (email (heap w r)))"
      and v: "visits visit (matching_ids (store w') ''smith'')"
  proof -
    have "i \<notin> matching_ids (store w') ''smith''" for i
    proof
      assume "i \<in> matching_ids (store w') ''smith''"
      from matching_ids_sound [OF inv' this] obtain r' where r': "primary w' i = Some r'"
        and f: "(\<exists>word \<in> name_words (heap w' r'). str_contains ''smith'' (str_lower word)) \<or>
                 str_contains ''smith'' (phone (heap w' r')) \<or>
                 str_contains ''smith'' (str_lower (email (heap w' r')))"
        by blast
      from only [OF r'] have "r' = r" .
      with f np ne show False
        by (simp add: words h lower_carol lower_jones)
    qed
    then have "matching_ids (store w') ''smith'' = {}" by blast
    with v have "visit (matching_ids (store w') ''smith'') = []" by (simp add: visits_def)
    then show ?thesis
      by (simp add: search_contacts_Inr strip_lower_smith List.map_filter_def)
  qed
  have jones: "search_contacts w' visit ''jones'' = Inr [r]"
    if v: "visits visit (matching_ids (store w') ''jones'')"
  proof -
    have "?u \<in> matching_ids (store w') ''jones''"
      by (rule matching_ids_name [OF inv' p', of "''jones''"])
         (simp_all add: h words lower_jones)
    moreover have "i = ?u" if "i \<in> matching_ids (store w') ''jones''" for i
    proof -
      from matching_ids_stored [OF inv' that] obtain r' where r': "primary w' i = Some r'"
        by auto
      from only [OF r'] r' have "primary w' i = Some r" by simp
      moreover from inv' have "keys_ok (primary w') (heap w') (next_ref w')"
        by (simp add: store_inv_def)
      ultimately show ?thesis using p' by (auto dest: keys_ok_inj)
    qed
    ultimately have "matching_ids (store w') ''jones'' = {?u}" by blast
    with v have "visit (matching_ids (store w') ''jones'') = [?u]"
      by (simp add: visits_def distinct_one)
    with p' show ?thesis
      by (simp add: search_contacts_Inr strip_lower_jones List.map_filter_def primary_def)
  qed
  from x all' h smith jones show ?thesis by simp
qed

theorem rename_search_witness:
  "fresh_ids empty_world [Create ''Alice Smith'' ''1234567890'' ''alice@example.com'' ''u1''] \<and>
   run empty_world [Create ''Alice Smith'' ''1234567890'' ''alice@example.com'' ''u1''] =
     Inr alice_world \<and>
   get_all_contacts alice_world = [0] \<and>
   name (heap alice_world 0) = ''Alice Smith'' \<and>
   update_contact alice_world ''u1'' [(''name'', ''Carol Jones'')] = Inr (Some 0, carol_world) \<and>
   \<not> str_contains ''smith'' (phone (heap alice_world 0)) \<and>
   \<not> str_contains ''smith'' (str_lower (email (heap alice_world 0))) \<and>
   visits (\<lambda>S. if S = {} then [] else [''u1'']) (matching_ids (store carol_world) ''smith'') \<and>
   search_contacts carol_world (\<lambda>S. if S = {} then [] else [''u1'']) ''smith'' = Inr [] \<and>
   visits (\<lambda>S. if S = {} then [] else [''u1'']) (matching_ids (store carol_world) ''jones'') \<and>
   search_contacts carol_world (\<lambda>S. if S = {} then [] else [''u1'']) ''jones'' = Inr [0]"
proof -
  let ?V = "\<lambda>S::string set. if S = {} then [] else [''u1'']"
  have one: "get_all_contacts alice_world = [0]"
    and n: "name (heap alice_world 0) = ''Alice Smith''"
    and cid: "contact_id (heap alice_world 0) = ''u1''"
    by (simp_all add: alice_world_def alice_def get_all_contacts_def)
  have np: "\<not> str_contains ''smith'' (phone (heap alice_world 0))"
    and ne: "\<not> str_contains ''smith'' (str_lower (email (heap alice_world 0)))"
    by (simp_all add: alice_world_def alice_def lower_alice_email)
  have vs: "visits ?V (matching_ids (store carol_world) ''smith'')"
    and vj: "visits ?V (matching_ids (store carol_world) ''jones'')"
    by (simp_all add: carol_world_def matching_ids_def visits_def str_lower_def lower_char_def)
  from update_alice cid
  have up: "update_contact alice_world (contact_id (heap alice_world 0))
              [(''name'', ''Carol Jones'')] = Inr (Some 0, carol_world)"
    by simp
  from rename_search [OF fresh_alice run_alice one n up, of ?V] np ne vs vj
  have "search_contacts carol_world ?V ''smith'' = Inr []"
    and "search_contacts carol_world ?V ''jones'' = Inr [0]"
    by blast+
  with fresh_alice run_alice one n update_alice np ne vs vj show ?thesis by blast
qed

end
